theory Spec2Isabelle
  imports Complex_Main "HOL-Library.AList"
begin

section \<open>Shared conventions\<close>

text \<open>
  Python floats are modelled as \<^typ>\<open>real\<close>: rounding, overflow and NaN inputs are outside
  the model.  A \<^verbatim>\<open>dict\<close> is an association list in insertion order, with
  \<^const>\<open>AList.update\<close> for \<^verbatim>\<open>d[k] = v\<close> (an existing key keeps its place, a new key goes
  to the end) and \<^const>\<open>AList.delete\<close> for \<^verbatim>\<open>del d[k]\<close>; \<^const>\<open>map_of\<close> reads it.
  Exceptions are values of the type \<open>error\<close>.
\<close>

datatype error = NameError | ValueError | KeyError | IndexError

section \<open>audio\_player.py: the presence actuator\<close>

text \<open>
  The fields of \<^verbatim>\<open>AudioPlayer\<close> that \<^verbatim>\<open>manage\<close> can read.  The vlc objects are a
  collaborator: what the vlc player answers during one call of \<^verbatim>\<open>manage\<close> is an input
  (\<open>vlc_obs\<close>), and a call of the collaborator that raises is \<open>Raised\<close>.
\<close>

record AudioPlayer =
  path :: string
  restart_threshold :: real
  enabled :: bool

datatype 'a reply = Returned 'a | Raised

record vlc_obs =
  vlc_is_playing :: "int reply"
  vlc_get_length :: "int reply"
  vlc_get_time :: "int reply"

text \<open>The methods of \<^verbatim>\<open>AudioPlayer\<close> that \<^verbatim>\<open>manage\<close> may invoke on \<^verbatim>\<open>self\<close>.\<close>

datatype method_call = Is_playing | Time_remaining | Play | Stop

definition is_playing :: "AudioPlayer \<Rightarrow> vlc_obs \<Rightarrow> bool" where
  "is_playing self obs =
     (if \<not> enabled self then False
      else (case vlc_is_playing obs of Returned v \<Rightarrow> v = 1 | Raised \<Rightarrow> False))"

definition time_remaining :: "AudioPlayer \<Rightarrow> vlc_obs \<Rightarrow> real option" where
  "time_remaining self obs =
     (if \<not> enabled self then None
      else (case vlc_get_length obs of
              Raised \<Rightarrow> None
            | Returned len \<Rightarrow>
                (case vlc_get_time obs of
                   Raised \<Rightarrow> None
                 | Returned pos \<Rightarrow>
                     if len \<le> 0 \<or> pos < 0 then None
                     else Some (max 0 (real_of_int (len - pos) / 1000)))))"

text \<open>
  \<^verbatim>\<open>manage(num_tracked)\<close>: the result is the list of methods it called, in order.  It reads
  \<^verbatim>\<open>playing\<close> and \<^verbatim>\<open>rem\<close>, and \<^verbatim>\<open>rem\<close> is not used afterwards.
\<close>

definition manage :: "AudioPlayer \<Rightarrow> vlc_obs \<Rightarrow> nat \<Rightarrow> method_call list" where
  "manage self obs num_tracked =
     (if \<not> enabled self then []
      else
        (let playing = is_playing self obs;
             rem = time_remaining self obs
         in if num_tracked > 0 \<and> \<not> playing
            then [Is_playing, Time_remaining, Play]
            else [Is_playing, Time_remaining]))"

text \<open>A sequence of calls of \<^verbatim>\<open>manage\<close> on one player, one per loop iteration.\<close>

fun manage_all :: "AudioPlayer \<Rightarrow> (vlc_obs \<times> nat) list \<Rightarrow> method_call list list" where
  "manage_all self [] = []"
| "manage_all self ((obs, num_tracked) # rest) =
     manage self obs num_tracked # manage_all self rest"

section \<open>main.py: the frontal-pose classifier\<close>

text \<open>
  The landmarks are rows of a numpy float array.  Division of numpy floats by zero gives
  \<^verbatim>\<open>inf\<close> or \<^verbatim>\<open>nan\<close> (with a warning) and does not raise; \<open>npfloat\<close> keeps these values
  apart from the finite ones, and \<open>np_less\<close> is the comparison \<^verbatim>\<open><\<close> with a finite bound.
\<close>

type_synonym point = "real \<times> real"
type_synonym landmarks = "point \<times> point \<times> point \<times> point \<times> point"

datatype npfloat = Finite real | PosInf | NegInf | NaN

definition np_div :: "real \<Rightarrow> real \<Rightarrow> npfloat" where
  "np_div a b =
     (if b \<noteq> 0 then Finite (a / b)
      else if a > 0 then PosInf else if a < 0 then NegInf else NaN)"

fun np_less :: "npfloat \<Rightarrow> real \<Rightarrow> bool" where
  "np_less (Finite x) c = (x < c)"
| "np_less PosInf c = False"
| "np_less NegInf c = True"
| "np_less NaN c = False"

definition yaw_ratio :: "landmarks \<Rightarrow> real" where
  "yaw_ratio landmarks =
     (case landmarks of (le, re, nose, lm, rm) \<Rightarrow>
        let eye_mid_x = (fst le + fst re) / 2;
            nose_offset = \<bar>fst nose - eye_mid_x\<bar>;
            eye_dist = \<bar>fst le - fst re\<bar>
        in if eye_dist > 0 then nose_offset / eye_dist else 1)"

definition pitch_ratio :: "landmarks \<Rightarrow> npfloat" where
  "pitch_ratio landmarks =
     (case landmarks of (le, re, nose, lm, rm) \<Rightarrow>
        let eye_mid_y = (snd le + snd re) / 2;
            mouth_mid_y = (snd lm + snd rm) / 2
        in np_div \<bar>snd nose - eye_mid_y\<bar> (mouth_mid_y - eye_mid_y + 1 / 1000000))"

definition is_facing_camera :: "landmarks \<Rightarrow> bool" where
  "is_facing_camera landmarks =
     (yaw_ratio landmarks < 0.25 \<and> np_less (pitch_ratio landmarks) 0.7)"

text \<open>
  The yaw ratio in the words of the specification: the ratio is taken as 1 when the eye
  distance is 0.
\<close>

definition spec_yawRatio :: "landmarks \<Rightarrow> real" where
  "spec_yawRatio landmarks =
     (case landmarks of (leftEye, rightEye, nose, leftMouth, rightMouth) \<Rightarrow>
        if \<bar>fst leftEye - fst rightEye\<bar> = 0 then 1
        else \<bar>fst nose - (fst leftEye + fst rightEye) / 2\<bar> / \<bar>fst leftEye - fst rightEye\<bar>)"

text \<open>The two quantities the specification calls degenerate geometry.\<close>

definition eye_distance :: "landmarks \<Rightarrow> real" where
  "eye_distance landmarks =
     (case landmarks of (le, re, nose, lm, rm) \<Rightarrow> \<bar>fst le - fst re\<bar>)"

definition mouth_eye_delta :: "landmarks \<Rightarrow> real" where
  "mouth_eye_delta landmarks =
     (case landmarks of (le, re, nose, lm, rm) \<Rightarrow>
        (snd lm + snd rm) / 2 - (snd le + snd re) / 2)"

definition nose_eye_drop :: "landmarks \<Rightarrow> real" where
  "nose_eye_drop landmarks =
     (case landmarks of (le, re, nose, lm, rm) \<Rightarrow> \<bar>snd nose - (snd le + snd re) / 2\<bar>)"

section \<open>main.py: the identity memory\<close>

text \<open>
  An embedding is a one-dimensional numpy array; \<^verbatim>\<open>np.dot\<close> of two such arrays of
  different lengths raises \<^verbatim>\<open>ValueError\<close>.  An identity as the code holds it is an
  integer or Python's \<^verbatim>\<open>None\<close> (the initial \<^verbatim>\<open>best_id\<close>).
\<close>

type_synonym embedding = "real list"
type_synonym face_id = "nat option"

record FaceMemory =
  db :: "(nat \<times> embedding) list"
  next_id :: nat
  thresh :: real

definition FaceMemory_init :: "real \<Rightarrow> FaceMemory" where
  "FaceMemory_init similarity_thresh = \<lparr>db = [], next_id = 1, thresh = similarity_thresh\<rparr>"

definition dot :: "embedding \<Rightarrow> embedding \<Rightarrow> real" where
  "dot a b = sum_list (map (\<lambda>(x, y). x * y) (zip a b))"

definition cosine :: "embedding \<Rightarrow> embedding \<Rightarrow> error + real" where
  "cosine a b = (if length a = length b then Inr (dot a b) else Inl ValueError)"

text \<open>The \<^verbatim>\<open>for\<close> loop of \<^verbatim>\<open>get_id\<close> over \<^verbatim>\<open>self.db.items()\<close>.\<close>

fun get_id_loop ::
  "embedding \<Rightarrow> (nat \<times> embedding) list \<Rightarrow> face_id \<times> real \<Rightarrow> error + (face_id \<times> real)" where
  "get_id_loop emb [] (best_id, best_sim) = Inr (best_id, best_sim)"
| "get_id_loop emb ((fid, stored_emb) # rest) (best_id, best_sim) =
     (case cosine emb stored_emb of
        Inl e \<Rightarrow> Inl e
      | Inr sim \<Rightarrow>
          if sim > best_sim then get_id_loop emb rest (Some fid, sim)
          else get_id_loop emb rest (best_id, best_sim))"

definition get_id :: "FaceMemory \<Rightarrow> embedding \<Rightarrow> error + (face_id \<times> FaceMemory)" where
  "get_id self emb =
     (case get_id_loop emb (db self) (None, 0) of
        Inl e \<Rightarrow> Inl e
      | Inr (best_id, best_sim) \<Rightarrow>
          if best_sim > thresh self then Inr (best_id, self)
          else
            (let fid = next_id self
             in Inr (Some fid,
                     self\<lparr>db := AList.update fid emb (db self),
                          next_id := next_id self + 1\<rparr>)))"

text \<open>The memory after a sequence of calls of \<^verbatim>\<open>get_id\<close>, starting from a given memory.\<close>

fun get_ids :: "FaceMemory \<Rightarrow> embedding list \<Rightarrow> error + FaceMemory" where
  "get_ids self [] = Inr self"
| "get_ids self (emb # rest) =
     (case get_id self emb of
        Inl e \<Rightarrow> Inl e
      | Inr (fid, self') \<Rightarrow> get_ids self' rest)"

text \<open>The similarities of a query with the stored embeddings, in the order of the table.\<close>

definition sims :: "FaceMemory \<Rightarrow> embedding \<Rightarrow> real list" where
  "sims self emb = map (\<lambda>(fid, stored_emb). dot emb stored_emb) (db self)"

section \<open>config.py\<close>

text \<open>The configuration module, passed explicitly to the code that reads it.\<close>

record config =
  DEBUG :: bool
  STALE_FACE_TIMEOUT :: real
  Campaign_name :: string
  IS_RASPBERRY_PI :: bool

definition config_py :: config where
  "config_py =
     \<lparr>DEBUG = True, STALE_FACE_TIMEOUT = 3.0, Campaign_name = ''Coca-Cola Zero'',
      IS_RASPBERRY_PI = False\<rparr>"

section \<open>Old\_code/tracker.py: the frame tracker\<close>

text \<open>
  A detection (\<open>cur\<close> below is the source's \<^verbatim>\<open>curr\<close>) is the dict \<^verbatim>\<open>{rect, center, face_id}\<close> built by
  \<^verbatim>\<open>FaceDetector.build_detections\<close>, with \<^verbatim>\<open>face_id\<close> \<^verbatim>\<open>None\<close> until the tracker sets it.
  The entries of the two tables carry the time fields; an entry of \<^verbatim>\<open>FaceTracker\<close> adds
  the centre, an entry of the SCRFD pipeline of main.py adds the session-relative start
  and end.
\<close>

record detection =
  rect :: "real \<times> real \<times> real \<times> real"
  center :: point
  face_id :: "nat option"

record times =
  attention_time :: real
  total_time :: real

record seen_times = times +
  last_seen :: real

record tracked = seen_times +
  center :: point

record visit = seen_times +
  start_time :: real
  end_time :: real


record ('k, 'e) face_tables =
  face_tracking :: "('k \<times> 'e) list"
  face_history :: "('k \<times> 'e) list"

record FaceTracker = "(nat, tracked) face_tables" +
  next_face_id :: nat


text \<open>
  \<^verbatim>\<open>_compute_distances\<close>.  The inner loop runs over the keys of \<^verbatim>\<open>self.face_tracking\<close> and
  reads the entry of each key; a dict has one entry per key, so the loop is over the
  entries of the table.
\<close>

definition compute_distances ::
  "FaceTracker \<Rightarrow> detection list \<Rightarrow> (real \<times> nat \<times> nat) list" where
  "compute_distances self curr_detections =
     concat (map (\<lambda>(i, cur).
        case detection.center cur of (cx, cy) \<Rightarrow>
          map (\<lambda>(fid, prev).
             case center prev of (px, py) \<Rightarrow>
               (sqrt ((px - cx)\<^sup>2 + (py - cy)\<^sup>2), i, fid))
            (face_tracking self))
       (enumerate 0 curr_detections))"

text \<open>
  The loop of \<^verbatim>\<open>_greedy_assignment\<close> over the sorted pairs; its state is
  \<^verbatim>\<open>(assigned_curr, assigned_prev, assignments)\<close>, and \<open>distance\<close> is the source's \<^verbatim>\<open>dist\<close>.  \<^verbatim>\<open>curr_detections[i]\<close> raises
  \<^verbatim>\<open>IndexError\<close> out of range.
\<close>

fun greedy_loop ::
  "detection list \<Rightarrow> (real \<times> nat \<times> nat) list \<Rightarrow> nat set \<times> nat set \<times> (nat \<times> nat) list
     \<Rightarrow> error + (nat set \<times> nat set \<times> (nat \<times> nat) list)" where
  "greedy_loop curr_detections [] st = Inr st"
| "greedy_loop curr_detections ((distance, i, fid) # rest) (assigned_curr, assigned_prev, assignments) =
     (if i \<in> assigned_curr \<or> fid \<in> assigned_prev
      then greedy_loop curr_detections rest (assigned_curr, assigned_prev, assignments)
      else if \<not> i < length curr_detections then Inl IndexError
      else
        (case rect (curr_detections ! i) of (x, y, w, h) \<Rightarrow>
           let threshold = max 50 (max w h * 0.6)
           in if distance \<le> threshold
              then greedy_loop curr_detections rest
                     (insert i assigned_curr, insert fid assigned_prev,
                      AList.update i fid assignments)
              else greedy_loop curr_detections rest
                     (assigned_curr, assigned_prev, assignments)))"

text \<open>\<^verbatim>\<open>pairs.sort(key=lambda t: t[0])\<close> is a stable sort on the distance, as \<^const>\<open>sort_key\<close> is.\<close>

definition greedy_assignment ::
  "detection list \<Rightarrow> (real \<times> nat \<times> nat) list \<Rightarrow> error + (nat \<times> nat) list" where
  "greedy_assignment curr_detections pairs =
     (case greedy_loop curr_detections (sort_key fst pairs) ({}, {}, []) of
        Inl e \<Rightarrow> Inl e
      | Inr (assigned_curr, assigned_prev, assignments) \<Rightarrow> Inr assignments)"

text \<open>The loop of \<^verbatim>\<open>_assign_ids\<close> over \<^verbatim>\<open>enumerate(curr_detections)\<close>.\<close>

fun assign_ids_loop ::
  "(nat \<times> nat) list \<Rightarrow> real \<Rightarrow> FaceTracker \<Rightarrow> (nat \<times> detection) list
     \<Rightarrow> FaceTracker \<times> detection list" where
  "assign_ids_loop assignments curr_time self [] = (self, [])"
| "assign_ids_loop assignments curr_time self ((i, cur) # rest) =
     (case map_of assignments i of
        Some fid \<Rightarrow>
          (case assign_ids_loop assignments curr_time self rest of
             (self', rest') \<Rightarrow> (self', cur\<lparr>face_id := Some fid\<rparr> # rest'))
      | None \<Rightarrow>
          (let fid = next_face_id self;
               self1 = self\<lparr>next_face_id := next_face_id self + 1\<rparr>;
               self2 = self1\<lparr>face_tracking :=
                         AList.update fid
                           \<lparr>attention_time = 0, total_time = 0, last_seen = curr_time,
                            center = detection.center cur\<rparr>
                           (face_tracking self1)\<rparr>
           in case assign_ids_loop assignments curr_time self2 rest of
                (self', rest') \<Rightarrow> (self', cur\<lparr>face_id := Some fid\<rparr> # rest')))"

definition assign_ids ::
  "FaceTracker \<Rightarrow> detection list \<Rightarrow> (nat \<times> nat) list \<Rightarrow> real
     \<Rightarrow> FaceTracker \<times> detection list" where
  "assign_ids self curr_detections assignments curr_time =
     assign_ids_loop assignments curr_time self (enumerate 0 curr_detections)"

text \<open>
  \<^verbatim>\<open>_update_tracking\<close>: \<^verbatim>\<open>self.face_tracking[face_id]\<close> raises \<^verbatim>\<open>KeyError\<close> for a
  missing key (and for \<^verbatim>\<open>None\<close>, which is never a key).
\<close>

fun update_tracking ::
  "FaceTracker \<Rightarrow> detection list \<Rightarrow> real \<Rightarrow> real \<Rightarrow> error + FaceTracker" where
  "update_tracking self [] curr_time dt = Inr self"
| "update_tracking self (cur # rest) curr_time dt =
     (case face_id cur of
        None \<Rightarrow> Inl KeyError
      | Some fid \<Rightarrow>
          (case map_of (face_tracking self) fid of
             None \<Rightarrow> Inl KeyError
           | Some tr \<Rightarrow>
               update_tracking
                 (self\<lparr>face_tracking :=
                    AList.update fid
                      (tr\<lparr>center := detection.center cur,
                          last_seen := curr_time,
                          total_time := total_time tr + dt,
                          attention_time := attention_time tr + dt\<rparr>)
                      (face_tracking self)\<rparr>)
                 rest curr_time dt))"

text \<open>
  Eviction, as both \<^verbatim>\<open>FaceTracker._cleanup_stale\<close> and the main loop of main.py do it:
  the stale entries are collected first, then each is stored in the history under its id
  and deleted from the active table.
\<close>

definition stale ::
  "config \<Rightarrow> real \<Rightarrow> ('k \<times> ('z seen_times_scheme)) list \<Rightarrow> ('k \<times> ('z seen_times_scheme)) list" where
  "stale cfg curr_time tbl =
     filter (\<lambda>(fid, e). curr_time - last_seen e > STALE_FACE_TIMEOUT cfg) tbl"

fun move_stale ::
  "('k \<times> 'e) list \<Rightarrow> ('k, 'e, 'm) face_tables_scheme \<Rightarrow> ('k, 'e, 'm) face_tables_scheme" where
  "move_stale [] self = self"
| "move_stale ((fid, e) # rest) self =
     move_stale rest
       (self\<lparr>face_history := AList.update fid e (face_history self),
             face_tracking := AList.delete fid (face_tracking self)\<rparr>)"

definition cleanup_stale :: "config \<Rightarrow> FaceTracker \<Rightarrow> real \<Rightarrow> FaceTracker" where
  "cleanup_stale cfg self curr_time =
     move_stale (stale cfg curr_time (face_tracking self)) self"

definition update ::
  "config \<Rightarrow> FaceTracker \<Rightarrow> detection list \<Rightarrow> real \<Rightarrow> real
     \<Rightarrow> error + (FaceTracker \<times> detection list)" where
  "update cfg self curr_detections curr_time dt =
     (let pairs = compute_distances self curr_detections
      in case greedy_assignment curr_detections pairs of
           Inl e \<Rightarrow> Inl e
         | Inr assignments \<Rightarrow>
             (case assign_ids self curr_detections assignments curr_time of
                (self1, dets1) \<Rightarrow>
                  (case update_tracking self1 dets1 curr_time dt of
                     Inl e \<Rightarrow> Inl e
                   | Inr self2 \<Rightarrow> Inr (cleanup_stale cfg self2 curr_time, dets1))))"






section \<open>main.py: the SCRFD pipeline\<close>

text \<open>
  One face of one frame, as the loop body sees it: the box and landmarks returned by
  \<^verbatim>\<open>detector.detect\<close>, the \<^verbatim>\<open>size\<close> of the crop \<^verbatim>\<open>frame[y1:y2, x1:x2]\<close>, and the
  embedding \<^verbatim>\<open>arcface.get_embedding\<close> computes for that crop.  The last two come from
  collaborators and are read only where the code calls them.
\<close>

record scrfd_face =
  box :: "int \<times> int \<times> int \<times> int"
  kps :: landmarks
  crop_size :: nat
  arcface_emb :: embedding

text \<open>One iteration of the loop: what \<^verbatim>\<open>time.time()\<close> returned and what was detected.\<close>

record frame_obs =
  time_now :: real
  detected :: "scrfd_face list"

text \<open>
  The local variables of \<^verbatim>\<open>main\<close> that survive an iteration.  \<open>fid_var\<close> is the local
  \<^verbatim>\<open>fid\<close>, \<open>None\<close> while it is unbound.
\<close>

record main_state = "(face_id, visit) face_tables" +
  memory :: FaceMemory
  fid_var :: "face_id option"
  campaign_start_time :: real
  prev_time :: real
  frame_count :: nat
  timeline :: "nat list"
  time_axis :: "real list"

definition main_init :: "real \<Rightarrow> main_state" where
  "main_init t =
     \<lparr>face_tracking = [], face_history = [],
      memory = FaceMemory_init 0.45, fid_var = None, campaign_start_time = t,
      prev_time = 0, frame_count = 0, timeline = [], time_axis = []\<rparr>"

text \<open>
  The body of the loop over the faces of a frame (lines 156 to 183).  An exception leaves
  the loop with the state as it is at that point: the \<^verbatim>\<open>finally\<close> block of \<^verbatim>\<open>main\<close>
  reports from it.  Reading the unbound \<^verbatim>\<open>fid\<close> raises \<^verbatim>\<open>UnboundLocalError\<close>, a
  \<^verbatim>\<open>NameError\<close>.  After \<^verbatim>\<open>if fid not in face_tracking\<close> has stored the fresh entry, the
  entry the four assignments change is that one, or else the one already there.
\<close>

definition process_face ::
  "real \<Rightarrow> real \<Rightarrow> real \<Rightarrow> main_state \<Rightarrow> scrfd_face \<Rightarrow> error option \<times> main_state" where
  "process_face curr_time elapsed dt s f =
     (if \<not> is_facing_camera (kps f) then (None, s)
      else if crop_size f = 0 then (None, s)
      else
        (case (if frame_count s mod 10 = 0
               then (case get_id (memory s) (arcface_emb f) of
                       Inl e \<Rightarrow> Inl e
                     | Inr (fid, m) \<Rightarrow> Inr (s\<lparr>memory := m, fid_var := Some fid\<rparr>))
               else Inr s) of
           Inl e \<Rightarrow> (Some e, s)
         | Inr s1 \<Rightarrow>
             (case fid_var s1 of
                None \<Rightarrow> (Some NameError, s1)
              | Some fid \<Rightarrow>
                  (let entry =
                         (case map_of (face_tracking s1) fid of
                            None \<Rightarrow>
                              \<lparr>attention_time = 0, total_time = 0, last_seen = curr_time,
                               start_time = elapsed, end_time = elapsed\<rparr>
                          | Some v \<Rightarrow> v)
                   in (None,
                       s1\<lparr>face_tracking :=
                            AList.update fid
                              (entry\<lparr>last_seen := curr_time,
                                     end_time := elapsed,
                                     total_time := total_time entry + dt,
                                     attention_time := attention_time entry + dt\<rparr>)
                              (face_tracking s1)\<rparr>)))))"

fun process_faces ::
  "real \<Rightarrow> real \<Rightarrow> real \<Rightarrow> main_state \<Rightarrow> scrfd_face list \<Rightarrow> error option \<times> main_state" where
  "process_faces curr_time elapsed dt s [] = (None, s)"
| "process_faces curr_time elapsed dt s (f # rest) =
     (case process_face curr_time elapsed dt s f of
        (Some e, s') \<Rightarrow> (Some e, s')
      | (None, s') \<Rightarrow> process_faces curr_time elapsed dt s' rest)"

text \<open>
  One iteration of \<^verbatim>\<open>while True\<close> with a frame that was read.  The drawing and the call
  of \<^verbatim>\<open>audio.manage\<close> change none of these variables.
\<close>

definition main_frame :: "config \<Rightarrow> main_state \<Rightarrow> frame_obs \<Rightarrow> error option \<times> main_state" where
  "main_frame cfg s fr =
     (let curr_time = time_now fr;
          elapsed = curr_time - campaign_start_time s;
          dt = (if prev_time s \<noteq> 0 then curr_time - prev_time s else 0);
          s1 = s\<lparr>prev_time := curr_time\<rparr>
      in case process_faces curr_time elapsed dt s1 (detected fr) of
           (Some e, s2) \<Rightarrow> (Some e, s2)
         | (None, s2) \<Rightarrow>
             (let s3 = move_stale (stale cfg curr_time (face_tracking s2)) s2
              in (None,
                  s3\<lparr>timeline := timeline s3 @ [length (face_tracking s3)],
                     time_axis := time_axis s3 @ [elapsed],
                     frame_count := frame_count s3 + 1\<rparr>)))"

text \<open>The loop over the frames read until the source ends, or until an exception.\<close>

fun main_loop :: "config \<Rightarrow> main_state \<Rightarrow> frame_obs list \<Rightarrow> error option \<times> main_state" where
  "main_loop cfg s [] = (None, s)"
| "main_loop cfg s (fr # rest) =
     (case main_frame cfg s fr of
        (Some e, s') \<Rightarrow> (Some e, s')
      | (None, s') \<Rightarrow> main_loop cfg s' rest)"

text \<open>
  \<^verbatim>\<open>save_report\<close>: \<^verbatim>\<open>dict.update\<close> stores every item of the other dict, so the history is
  applied first and the active table second.  The CSV file is the report sink's.
\<close>

definition dict_update :: "('k \<times> 'v) list \<Rightarrow> ('k \<times> 'v) list \<Rightarrow> ('k \<times> 'v) list" where
  "dict_update d other = foldl (\<lambda>acc (k, v). AList.update k v acc) d other"

definition all_faces ::
  "('k, 'e, 'm) face_tables_scheme \<Rightarrow> ('k \<times> 'e) list" where
  "all_faces s = dict_update (dict_update [] (face_history s)) (face_tracking s)"

record report =
  total_people :: nat
  total_attention :: real
  avg_attention :: real

definition save_report :: "main_state \<Rightarrow> report" where
  "save_report s =
     (let faces = all_faces s;
          total = foldl (\<lambda>acc (fid, e). acc + attention_time e) 0 faces;
          people = length faces
      in \<lparr>total_people = people, total_attention = total,
          avg_attention = (if people > 0 then total / real people else 0)\<rparr>)"

section \<open>Quantities the properties speak of\<close>

text \<open>
  The adaptive gate in the words of the specification, \<open>max(50px, 0.6 \<times> max(detectionWidth,
  detectionHeight))\<close>, and the Euclidean distance between two centroids.
\<close>

definition match_gate :: "detection \<Rightarrow> real" where
  "match_gate det = (case rect det of (x, y, detectionWidth, detectionHeight) \<Rightarrow>
                       max 50 (0.6 * max detectionWidth detectionHeight))"

definition centroid_distance :: "point \<Rightarrow> point \<Rightarrow> real" where
  "centroid_distance p c = sqrt ((fst p - fst c)\<^sup>2 + (snd p - snd c)\<^sup>2)"

text \<open>
  The entry \<^verbatim>\<open>_assign_ids\<close> creates for an unmatched detection, and the entry
  \<^verbatim>\<open>_update_tracking\<close> leaves after one detection has referenced it.
\<close>

definition new_face :: "real \<Rightarrow> detection \<Rightarrow> tracked" where
  "new_face curr_time cur =
     \<lparr>attention_time = 0, total_time = 0, last_seen = curr_time, center = detection.center cur\<rparr>"

definition seen_by :: "real \<Rightarrow> real \<Rightarrow> detection \<Rightarrow> tracked \<Rightarrow> tracked" where
  "seen_by curr_time dt cur tr =
     tr\<lparr>center := detection.center cur, last_seen := curr_time,
        total_time := total_time tr + dt, attention_time := attention_time tr + dt\<rparr>"


text \<open>
  In the SCRFD loop: the entry stored under an id that is not in the active table, the
  entry the four assignments at the end of the loop body leave, the \<^verbatim>\<open>dt\<close> of an
  iteration, and the loop over the faces of a frame as an iteration runs it, before the
  eviction.
\<close>

definition new_visit :: "real \<Rightarrow> real \<Rightarrow> visit" where
  "new_visit curr_time elapsed =
     \<lparr>attention_time = 0, total_time = 0, last_seen = curr_time,
      start_time = elapsed, end_time = elapsed\<rparr>"

definition visit_seen :: "real \<Rightarrow> real \<Rightarrow> real \<Rightarrow> visit \<Rightarrow> visit" where
  "visit_seen curr_time elapsed dt entry =
     entry\<lparr>last_seen := curr_time, end_time := elapsed,
           total_time := total_time entry + dt, attention_time := attention_time entry + dt\<rparr>"

definition frame_dt :: "main_state \<Rightarrow> frame_obs \<Rightarrow> real" where
  "frame_dt s fr = (if prev_time s \<noteq> 0 then time_now fr - prev_time s else 0)"

definition faces_step :: "main_state \<Rightarrow> frame_obs \<Rightarrow> error option \<times> main_state" where
  "faces_step s fr =
     process_faces (time_now fr) (time_now fr - campaign_start_time s) (frame_dt s fr)
       (s\<lparr>prev_time := time_now fr\<rparr>) (detected fr)"

section \<open>Concrete inputs\<close>

text \<open>The inputs at which the properties below are evaluated.\<close>

definition vlc_silent :: vlc_obs where
  "vlc_silent = \<lparr>vlc_is_playing = Returned 0, vlc_get_length = Returned 0, vlc_get_time = Returned 0\<rparr>"

definition vlc_mid_track :: vlc_obs where
  "vlc_mid_track = \<lparr>vlc_is_playing = Returned 1, vlc_get_length = Returned 30000, vlc_get_time = Returned 5000\<rparr>"

definition player_on :: AudioPlayer where
  "player_on = \<lparr>path = ''a.mp3'', restart_threshold = 2.0, enabled = True\<rparr>"

definition player_off :: AudioPlayer where
  "player_off = \<lparr>path = [], restart_threshold = 2.0, enabled = False\<rparr>"

definition level_face :: landmarks where
  "level_face = ((0, 10), (40, 10), (20, 10), (10, 10), (30, 10))"

definition frontal_face :: landmarks where
  "frontal_face = ((100, 100), (140, 100), (121, 120), (105, 140), (135, 140))"

definition coincident_eyes_face :: landmarks where
  "coincident_eyes_face = ((100, 100), (100, 100), (100, 120), (95, 140), (105, 140))"

definition flat_face :: landmarks where
  "flat_face = ((100, 100), (140, 100), (120, 105), (105, 100), (135, 100))"

definition two_faces_memory :: FaceMemory where
  "two_faces_memory = \<lparr>db = [(1, [1, 0]), (2, [0, 1])], next_id = 3, thresh = 0.45\<rparr>"

definition seen_at_100 :: tracked where
  "seen_at_100 = \<lparr>attention_time = 4, total_time = 4, last_seen = 100, center = (50, 60)\<rparr>"

definition one_face_tracker :: FaceTracker where
  "one_face_tracker = \<lparr>face_tracking = [(1, seen_at_100)], face_history = [], next_face_id = 2\<rparr>"

definition visit_at_100 :: visit where
  "visit_at_100 =
     \<lparr>attention_time = 4, total_time = 4, last_seen = 100, start_time = 6, end_time = 10\<rparr>"

definition one_visit_state :: main_state where
  "one_visit_state =
     \<lparr>face_tracking = [(Some 1, visit_at_100)], face_history = [],
      memory = \<lparr>db = [(1, [1, 0])], next_id = 2, thresh = 0.45\<rparr>, fid_var = Some (Some 1),
      campaign_start_time = 90, prev_time = 100, frame_count = 5, timeline = [1, 1, 1, 1, 1],
      time_axis = [6, 7, 8, 9, 10]\<rparr>"

definition near_face :: tracked where
  "near_face = \<lparr>attention_time = 2, total_time = 2, last_seen = 99, center = (100, 100)\<rparr>"

definition far_face :: tracked where
  "far_face = \<lparr>attention_time = 1, total_time = 1, last_seen = 99, center = (600, 100)\<rparr>"

definition two_tracked :: FaceTracker where
  "two_tracked =
     \<lparr>face_tracking = [(1, near_face), (2, far_face)], face_history = [], next_face_id = 3\<rparr>"

definition two_close_detections :: "detection list" where
  "two_close_detections =
     [\<lparr>rect = (60, 50, 100, 100), center = (110, 100), face_id = None\<rparr>,
      \<lparr>rect = (70, 50, 100, 100), center = (120, 100), face_id = None\<rparr>]"

definition frontal_face_b :: landmarks where
  "frontal_face_b = ((320, 100), (360, 100), (341, 120), (325, 140), (355, 140))"

definition turned_face :: landmarks where
  "turned_face = ((100, 100), (140, 100), (135, 120), (105, 140), (135, 140))"

definition front_a :: scrfd_face where
  "front_a = \<lparr>box = (80, 80, 160, 160), kps = frontal_face, crop_size = 19200, arcface_emb = [1, 0]\<rparr>"

definition front_b :: scrfd_face where
  "front_b = \<lparr>box = (300, 80, 380, 160), kps = frontal_face_b, crop_size = 19200, arcface_emb = [0, 1]\<rparr>"

definition side_a :: scrfd_face where
  "side_a = \<lparr>box = (80, 80, 160, 160), kps = turned_face, crop_size = 19200, arcface_emb = [1, 0]\<rparr>"

definition idle_frame :: "real \<Rightarrow> frame_obs" where
  "idle_frame t = \<lparr>time_now = t, detected = []\<rparr>"





definition far_detection :: detection where
  "far_detection = \<lparr>rect = (300, 410, 100, 100), center = (350, 460), face_id = None\<rparr>"

definition visit_on_cadence :: main_state where
  "visit_on_cadence =
     \<lparr>face_tracking = [(Some 1, visit_at_100)], face_history = [],
      memory = \<lparr>db = [(1, [1, 0])], next_id = 2, thresh = 0.45\<rparr>, fid_var = Some (Some 1),
      campaign_start_time = 90, prev_time = 100, frame_count = 10,
      timeline = [1, 1, 1, 1, 1, 1, 1, 1, 1, 1],
      time_axis = [1, 2, 3, 4, 5, 6, 7, 8, 9, 10]\<rparr>"

definition two_faces_frames :: "frame_obs list" where
  "two_faces_frames =
     [\<lparr>time_now = 100, detected = [front_a, front_b]\<rparr>,
      \<lparr>time_now = 101, detected = [front_a, front_b]\<rparr>]"

definition two_faces_first :: main_state where
  "two_faces_first =
     \<lparr>face_tracking =
        [(Some 1, \<lparr>attention_time = 0, total_time = 0, last_seen = 100,
                    start_time = 0, end_time = 0\<rparr>),
         (Some 2, \<lparr>attention_time = 0, total_time = 0, last_seen = 100,
                    start_time = 0, end_time = 0\<rparr>)],
      face_history = [],
      memory = \<lparr>db = [(1, [1, 0]), (2, [0, 1])], next_id = 3, thresh = 0.45\<rparr>,
      fid_var = Some (Some 2), campaign_start_time = 100, prev_time = 100,
      frame_count = 1, timeline = [2], time_axis = [0]\<rparr>"

definition two_faces_second :: main_state where
  "two_faces_second =
     \<lparr>face_tracking =
        [(Some 1, \<lparr>attention_time = 0, total_time = 0, last_seen = 100,
                    start_time = 0, end_time = 0\<rparr>),
         (Some 2, \<lparr>attention_time = 2, total_time = 2, last_seen = 101,
                    start_time = 0, end_time = 1\<rparr>)],
      face_history = [],
      memory = \<lparr>db = [(1, [1, 0]), (2, [0, 1])], next_id = 3, thresh = 0.45\<rparr>,
      fid_var = Some (Some 2), campaign_start_time = 100, prev_time = 101,
      frame_count = 2, timeline = [2, 2], time_axis = [0, 1]\<rparr>"

definition late_face_frames :: "frame_obs list" where
  "late_face_frames = [idle_frame 100, \<lparr>time_now = 101, detected = [front_a]\<rparr>]"






section \<open>The presence actuator\<close>

lemma manage_all_map:
  "manage_all self xs = map (\<lambda>(obs, n). manage self obs n) xs"
  by (induction xs) auto

lemma manage_restart_threshold:
  "manage (self\<lparr>restart_threshold := r\<rparr>) obs n = manage self obs n"
  by (simp add: manage_def is_playing_def time_remaining_def)

text \<open>
  Claim C9, with the guard of \<^verbatim>\<open>manage\<close> written in.  In every call, \<^verbatim>\<open>manage\<close> calls
  \<^verbatim>\<open>play()\<close> if and only if the player is enabled, the count of tracked faces is positive
  and \<^verbatim>\<open>is_playing()\<close> says it is not playing; it never calls \<^verbatim>\<open>stop()\<close>; and the value of
  \<^verbatim>\<open>restart_threshold\<close> changes nothing.  The same holds for every sequence of calls.
\<close>

theorem manage_play_iff:
  "(Play \<in> set (manage self obs n) \<longleftrightarrow> enabled self \<and> n > 0 \<and> \<not> is_playing self obs)
   \<and> Stop \<notin> set (manage self obs n)
   \<and> manage (self\<lparr>restart_threshold := r\<rparr>) obs n = manage self obs n
   \<and> (\<forall>calls \<in> set (manage_all self xs). Stop \<notin> set calls)
   \<and> manage_all (self\<lparr>restart_threshold := r\<rparr>) xs = manage_all self xs
   \<and> map (\<lambda>calls. Play \<in> set calls) (manage_all self xs)
       = map (\<lambda>(obs, n). enabled self \<and> n > 0 \<and> \<not> is_playing self obs) xs"
proof -
  have a: "Play \<in> set (manage self obs n) \<longleftrightarrow> enabled self \<and> n > 0 \<and> \<not> is_playing self obs"
    for obs n
    by (simp add: manage_def Let_def)
  have b: "Stop \<notin> set (manage self obs n)" for obs n
    by (simp add: manage_def Let_def)
  have c: "\<forall>calls \<in> set (manage_all self xs). Stop \<notin> set calls"
    using b by (auto simp: manage_all_map)
  have d: "manage_all (self\<lparr>restart_threshold := r\<rparr>) xs = manage_all self xs"
    by (simp add: manage_all_map manage_restart_threshold)
  have e: "map (\<lambda>calls. Play \<in> set calls) (manage_all self xs)
       = map (\<lambda>(obs, n). enabled self \<and> n > 0 \<and> \<not> is_playing self obs) xs"
    by (simp add: manage_all_map a split_def)
  show ?thesis
    by (intro conjI a b c d e manage_restart_threshold)
qed

theorem manage_play_iff_witness:
  "manage_all player_on [(vlc_silent, 0), (vlc_silent, 1), (vlc_mid_track, 0), (vlc_silent, 1)]
     = [[Is_playing, Time_remaining], [Is_playing, Time_remaining, Play],
        [Is_playing, Time_remaining], [Is_playing, Time_remaining, Play]]
   \<and> manage_all (player_on\<lparr>restart_threshold := 100\<rparr>)
        [(vlc_silent, 0), (vlc_silent, 1), (vlc_mid_track, 0), (vlc_silent, 1)]
     = manage_all player_on [(vlc_silent, 0), (vlc_silent, 1), (vlc_mid_track, 0), (vlc_silent, 1)]
   \<and> Play \<in> set (manage player_on vlc_silent 1)
   \<and> Stop \<notin> set (manage player_on vlc_mid_track 0)"
  using manage_play_iff [of player_on vlc_silent 1 100
      "[(vlc_silent, 0), (vlc_silent, 1), (vlc_mid_track, 0), (vlc_silent, 1)]"]
    manage_play_iff [of player_on vlc_mid_track 0 100 "[]"]
  by (simp add: manage_def is_playing_def time_remaining_def player_on_def vlc_silent_def
      vlc_mid_track_def)

text \<open>
  Claim C9 as it is written fails for a player that is not enabled (no audio file was
  found): one face is tracked, \<^verbatim>\<open>is_playing()\<close> answers that nothing plays, and
  \<^verbatim>\<open>manage\<close> returns before it calls \<^verbatim>\<open>play()\<close>.
\<close>

theorem manage_disabled_counterexample:
  "(0::nat) < 1 \<and> \<not> is_playing player_off vlc_silent
   \<and> Play \<notin> set (manage player_off vlc_silent 1)"
  by (simp add: manage_def is_playing_def player_off_def vlc_silent_def)

section \<open>The frontal-pose classifier\<close>

lemma yaw_ratio_spec: "yaw_ratio L = spec_yawRatio L"
  by (cases L) (auto simp: yaw_ratio_def spec_yawRatio_def Let_def)

text \<open>
  Claim C5, amended for a zero mouth/eye delta.  The classifier is a function of the five
  landmarks alone and returns true if and only if the yaw ratio of the specification is
  below 0.25 and the pitch ratio is below 0.7.  With an eye distance of 0 the face is
  never frontal.  With a mouth/eye delta of 0 nothing is raised, the pitch ratio is the
  nose-to-eye drop times \<open>10\<^sup>6\<close>, and the face is frontal exactly when the yaw test
  passes and that product is below 0.7.
\<close>

theorem is_facing_camera_thresholds:
  "(is_facing_camera L \<longleftrightarrow> spec_yawRatio L < 0.25 \<and> np_less (pitch_ratio L) 0.7)
   \<and> (eye_distance L = 0 \<longrightarrow> \<not> is_facing_camera L)
   \<and> (mouth_eye_delta L = 0 \<longrightarrow>
        pitch_ratio L = Finite (nose_eye_drop L * 1000000)
        \<and> (is_facing_camera L \<longleftrightarrow>
             spec_yawRatio L < 0.25 \<and> nose_eye_drop L * 1000000 < 0.7))"
proof -
  obtain le re nose lm rm where L: "L = (le, re, nose, lm, rm)" by (cases L) auto
  have a: "is_facing_camera L \<longleftrightarrow> spec_yawRatio L < 0.25 \<and> np_less (pitch_ratio L) 0.7"
    by (simp add: is_facing_camera_def yaw_ratio_spec)
  have b: "eye_distance L = 0 \<longrightarrow> \<not> is_facing_camera L"
    by (simp add: L is_facing_camera_def yaw_ratio_def eye_distance_def Let_def)
  have c: "mouth_eye_delta L = 0 \<longrightarrow> pitch_ratio L = Finite (nose_eye_drop L * 1000000)"
  proof
    assume "mouth_eye_delta L = 0"
    then have z: "(snd lm + snd rm) / 2 - (snd le + snd re) / 2 = 0"
      by (simp add: L mouth_eye_delta_def)
    have "pitch_ratio L = np_div \<bar>snd nose - (snd le + snd re) / 2\<bar>
            (((snd lm + snd rm) / 2 - (snd le + snd re) / 2) + 1 / 1000000)"
      by (simp add: L pitch_ratio_def Let_def)
    also have "\<dots> = np_div \<bar>snd nose - (snd le + snd re) / 2\<bar> (1 / 1000000)"
      by (simp only: z add_0_left)
    also have "\<dots> = Finite (nose_eye_drop L * 1000000)"
      by (simp add: L np_div_def nose_eye_drop_def)
    finally show "pitch_ratio L = Finite (nose_eye_drop L * 1000000)" .
  qed
  show ?thesis using a b c by auto
qed

theorem is_facing_camera_thresholds_witness:
  "is_facing_camera frontal_face
   \<and> eye_distance coincident_eyes_face = 0 \<and> \<not> is_facing_camera coincident_eyes_face
   \<and> mouth_eye_delta flat_face = 0 \<and> \<not> is_facing_camera flat_face"
  using is_facing_camera_thresholds [of frontal_face]
    is_facing_camera_thresholds [of coincident_eyes_face]
    is_facing_camera_thresholds [of flat_face]
  by (simp add: frontal_face_def coincident_eyes_face_def flat_face_def spec_yawRatio_def
      pitch_ratio_def np_div_def eye_distance_def mouth_eye_delta_def nose_eye_drop_def Let_def)

text \<open>
  Claim C5 as it is written fails where the mouth/eye delta is 0 and the nose is level
  with the eyes: the pitch ratio is 0 and the face is classified frontal.
\<close>

theorem is_facing_camera_level_counterexample:
  "mouth_eye_delta level_face = 0 \<and> is_facing_camera level_face"
  by (simp add: level_face_def mouth_eye_delta_def is_facing_camera_def yaw_ratio_def
      pitch_ratio_def np_div_def Let_def)

section \<open>The identity memory\<close>

lemma get_id_loop_result:
  assumes "\<forall>(fid, stored) \<in> set tbl. length stored = length emb"
  shows "\<exists>bi bs. get_id_loop emb tbl (b, s) = Inr (bi, bs)
           \<and> bs = Max (insert s (set (map (\<lambda>(fid, stored). dot emb stored) tbl)))
           \<and> ((bs = s \<and> bi = b)
                \<or> (s < bs \<and> (\<exists>fid stored. bi = Some fid \<and> (fid, stored) \<in> set tbl
                                 \<and> dot emb stored = bs)))"
  using assms
proof (induction tbl arbitrary: b s)
  case Nil
  then show ?case by simp
next
  case (Cons p tbl)
  obtain fid stored where p: "p = (fid, stored)" by (cases p)
  from Cons.prems p have len: "length stored = length emb"
    and rest: "\<forall>(fid, stored) \<in> set tbl. length stored = length emb" by auto
  let ?S = "set (map (\<lambda>(fid, stored). dot emb stored) tbl)"
  have fin: "finite ?S" by simp
  show ?case
  proof (cases "dot emb stored > s")
    case True
    from Cons.IH [OF rest, of "Some fid" "dot emb stored"]
    obtain bi bs where r: "get_id_loop emb tbl (Some fid, dot emb stored) = Inr (bi, bs)"
      and m: "bs = Max (insert (dot emb stored) ?S)"
      and d: "(bs = dot emb stored \<and> bi = Some fid)
                \<or> (dot emb stored < bs \<and> (\<exists>fid' stored'. bi = Some fid' \<and> (fid', stored') \<in> set tbl
                                 \<and> dot emb stored' = bs))"
      by blast
    have "Max (insert s (insert (dot emb stored) ?S)) = max s (Max (insert (dot emb stored) ?S))"
      using fin by simp
    also have "\<dots> = Max (insert (dot emb stored) ?S)"
    proof -
      have "dot emb stored \<le> Max (insert (dot emb stored) ?S)" using fin by simp
      with True show ?thesis by linarith
    qed
    finally have mx: "Max (insert s (insert (dot emb stored) ?S)) = bs" using m by simp
    have ge: "dot emb stored \<le> bs" using m fin by simp
    have "get_id_loop emb (p # tbl) (b, s) = Inr (bi, bs)"
      using True r len by (simp add: p cosine_def)
    moreover have "s < bs" using True ge by simp
    moreover have "\<exists>fid' stored'. bi = Some fid' \<and> (fid', stored') \<in> set (p # tbl)
                                 \<and> dot emb stored' = bs"
      using d p by auto
    ultimately show ?thesis using mx by (simp add: p)
  next
    case False
    from Cons.IH [OF rest, of b s]
    obtain bi bs where r: "get_id_loop emb tbl (b, s) = Inr (bi, bs)"
      and m: "bs = Max (insert s ?S)"
      and d: "(bs = s \<and> bi = b)
                \<or> (s < bs \<and> (\<exists>fid' stored'. bi = Some fid' \<and> (fid', stored') \<in> set tbl
                                 \<and> dot emb stored' = bs))"
      by blast
    have "Max (insert s (insert (dot emb stored) ?S)) = Max (insert (dot emb stored) (insert s ?S))"
      by (simp add: insert_commute)
    also have "\<dots> = max (dot emb stored) (Max (insert s ?S))"
      using fin by simp
    also have "\<dots> = Max (insert s ?S)"
    proof -
      have "s \<le> Max (insert s ?S)" using fin by simp
      with False show ?thesis by linarith
    qed
    finally have mx: "Max (insert s (insert (dot emb stored) ?S)) = bs" using m by simp
    have "get_id_loop emb (p # tbl) (b, s) = Inr (bi, bs)"
      using False r len by (simp add: p cosine_def)
    moreover have "(bs = s \<and> bi = b)
                \<or> (s < bs \<and> (\<exists>fid' stored'. bi = Some fid' \<and> (fid', stored') \<in> set (p # tbl)
                                 \<and> dot emb stored' = bs))"
      using d by auto
    ultimately show ?thesis using mx by (simp add: p)
  qed
qed

lemma get_id_hit:
  assumes dims: "\<forall>(fid, stored) \<in> set (db self). length stored = length emb"
    and th: "0 \<le> thresh self"
    and ne: "db self \<noteq> []"
    and big: "thresh self < Max (set (sims self emb))"
  shows "\<exists>fid stored. get_id self emb = Inr (Some fid, self) \<and> (fid, stored) \<in> set (db self)
            \<and> dot emb stored = Max (set (sims self emb))"
proof -
  let ?S = "set (sims self emb)"
  have fin: "finite ?S" and nonempty: "?S \<noteq> {}" using ne by (simp_all add: sims_def)
  from get_id_loop_result [OF dims, of None 0]
  obtain bi bs where r: "get_id_loop emb (db self) (None, 0) = Inr (bi, bs)"
    and m: "bs = Max (insert 0 ?S)"
    and d: "(bs = 0 \<and> bi = None)
             \<or> (0 < bs \<and> (\<exists>fid stored. bi = Some fid \<and> (fid, stored) \<in> set (db self)
                                 \<and> dot emb stored = bs))"
    unfolding sims_def by blast
  have pos: "0 < Max ?S" using th big by simp
  have "Max (insert 0 ?S) = max 0 (Max ?S)" using fin nonempty by simp
  with pos m have bs: "bs = Max ?S" by simp
  with pos d obtain fid stored where "bi = Some fid" "(fid, stored) \<in> set (db self)"
    "dot emb stored = bs" by auto
  moreover have "get_id self emb = Inr (bi, self)"
    using r big bs by (simp add: get_id_def)
  ultimately show ?thesis using bs by auto
qed

lemma get_id_miss:
  assumes dims: "\<forall>(fid, stored) \<in> set (db self). length stored = length emb"
    and th: "0 \<le> thresh self"
    and small: "db self = [] \<or> Max (set (sims self emb)) \<le> thresh self"
  shows "get_id self emb =
           Inr (Some (next_id self),
                self\<lparr>db := AList.update (next_id self) emb (db self),
                     next_id := next_id self + 1\<rparr>)"
proof -
  let ?S = "set (sims self emb)"
  from get_id_loop_result [OF dims, of None 0]
  obtain bi bs where r: "get_id_loop emb (db self) (None, 0) = Inr (bi, bs)"
    and m: "bs = Max (insert 0 ?S)"
    unfolding sims_def by blast
  have "bs \<le> thresh self"
  proof (cases "db self = []")
    case True
    then show ?thesis using m th by (simp add: sims_def)
  next
    case False
    then have fin: "finite ?S" and nonempty: "?S \<noteq> {}" by (simp_all add: sims_def)
    from False small have "Max ?S \<le> thresh self" by simp
    moreover have "Max (insert 0 ?S) = max 0 (Max ?S)" using fin nonempty by simp
    ultimately show ?thesis using m th by simp
  qed
  then show ?thesis using r by (simp add: get_id_def Let_def)
qed

lemma get_id_db_nonempty:
  assumes "0 \<le> thresh self" and "get_id self emb = Inr (fid, self')"
  shows "db self' \<noteq> [] \<and> thresh self' = thresh self"
proof (cases "get_id_loop emb (db self) (None, 0)")
  case (Inl e)
  with assms show ?thesis by (simp add: get_id_def)
next
  case (Inr r)
  obtain bi bs where r: "r = (bi, bs)" by (cases r)
  show ?thesis
  proof (cases "bs > thresh self")
    case True
    with Inr r assms have s: "self' = self" by (simp add: get_id_def)
    have "db self \<noteq> []"
    proof
      assume "db self = []"
      with Inr r have "bs = 0" by simp
      with True assms(1) show False by simp
    qed
    with s show ?thesis by simp
  next
    case False
    with Inr r assms show ?thesis by (auto simp: get_id_def Let_def)
  qed
qed

lemma get_id_keeps_nonempty:
  assumes "get_id self emb = Inr (fid, self')" and "db self \<noteq> []"
  shows "db self' \<noteq> []"
  using assms by (auto simp: get_id_def Let_def split: sum.splits if_splits)

lemma get_ids_nonempty:
  "get_ids self embs = Inr self' \<Longrightarrow> db self \<noteq> [] \<Longrightarrow> db self' \<noteq> []"
proof (induction embs arbitrary: self)
  case Nil
  then show ?case by simp
next
  case (Cons emb embs)
  then show ?case
    by (auto split: sum.splits dest: get_id_keeps_nonempty)
qed

lemma get_ids_empty_is_start:
  assumes "0 \<le> thresh self" and "get_ids self embs = Inr self'" and "db self' = []"
  shows "self' = self"
proof (cases embs)
  case Nil
  with assms show ?thesis by simp
next
  case (Cons emb rest)
  with assms obtain fid m where g: "get_id self emb = Inr (fid, m)"
    and r: "get_ids m rest = Inr self'"
    by (auto split: sum.splits)
  from get_id_db_nonempty [OF assms(1) g] have "db m \<noteq> []" by simp
  with get_ids_nonempty [OF r] assms(3) show ?thesis by simp
qed

text \<open>The keys of the table are below \<open>next_id\<close>, so a new id never replaces an entry.\<close>

lemma get_id_keys_below:
  assumes "get_id self emb = Inr (fid, self')" and "\<forall>k \<in> fst ` set (db self). k < next_id self"
  shows "\<forall>k \<in> fst ` set (db self'). k < next_id self'"
proof (cases "get_id_loop emb (db self) (None, 0)")
  case (Inl e)
  with assms show ?thesis by (simp add: get_id_def)
next
  case (Inr r)
  obtain bi bs where r: "r = (bi, bs)" by (cases r)
  show ?thesis
  proof (cases "bs > thresh self")
    case True
    with Inr r assms(1) have "self' = self" by (simp add: get_id_def)
    with assms(2) show ?thesis by simp
  next
    case False
    with Inr r assms(1)
    have d: "db self' = AList.update (next_id self) emb (db self)"
      and n: "next_id self' = next_id self + 1"
      by (auto simp: get_id_def Let_def)
    have "fst ` set (db self') = {next_id self} \<union> fst ` set (db self)"
      unfolding d by (rule AList.dom_update)
    with assms(2) n show ?thesis by auto
  qed
qed

lemma get_ids_keys_below:
  "get_ids self embs = Inr self' \<Longrightarrow> \<forall>k \<in> fst ` set (db self). k < next_id self
     \<Longrightarrow> \<forall>k \<in> fst ` set (db self'). k < next_id self'"
proof (induction embs arbitrary: self)
  case Nil
  then show ?case by simp
next
  case (Cons emb embs)
  from Cons.prems(1) obtain fid m where g: "get_id self emb = Inr (fid, m)"
    and r: "get_ids m embs = Inr self'"
    by (auto split: sum.splits)
  from get_id_keys_below [OF g Cons.prems(2)] Cons.IH [OF r] show ?case by blast
qed

lemma get_id_permanent:
  assumes "get_id self emb = Inr (fid, self')" and "\<forall>k \<in> fst ` set (db self). k < next_id self"
    and "map_of (db self) k = Some stored"
  shows "map_of (db self') k = Some stored"
proof -
  from assms(3) have "k \<in> fst ` set (db self)"
    by (metis domI dom_map_of_conv_image_fst)
  with assms(2) have "k \<noteq> next_id self" by auto
  with assms(1,3) show ?thesis
    by (auto simp: get_id_def Let_def AList.update_conv' split: sum.splits if_splits)
qed

lemma get_id_thresh:
  "get_id self emb = Inr (fid, self') \<Longrightarrow> thresh self' = thresh self"
  by (auto simp: get_id_def Let_def split: sum.splits if_splits)

lemma get_ids_thresh:
  "get_ids self embs = Inr self' \<Longrightarrow> thresh self' = thresh self"
proof (induction embs arbitrary: self)
  case Nil
  then show ?case by simp
next
  case (Cons emb embs)
  then show ?case
    by (auto split: sum.splits dest: get_id_thresh)
qed

text \<open>
  Claim C6.  The stored embeddings have the length of the query (the embedder returns
  vectors of one fixed length) and the threshold is not negative (it is 0.45).  When the
  memory is not empty and the greatest similarity exceeds the threshold, \<^verbatim>\<open>get_id\<close>
  returns the id of a stored embedding with that greatest similarity and leaves the memory
  as it is.  Otherwise it raises nothing, returns \<open>next_id\<close>, stores the query under that
  id and increments \<open>next_id\<close>.  An empty memory, reached from \<^verbatim>\<open>FaceMemory()\<close> by any
  calls of \<^verbatim>\<open>get_id\<close>, yields id 1, and no call changes an embedding that is stored.
\<close>

theorem get_id_spec:
  assumes dims: "\<forall>(fid, stored) \<in> set (db self). length stored = length emb"
    and th: "0 \<le> thresh self"
  shows "(db self \<noteq> [] \<and> thresh self < Max (set (sims self emb)) \<longrightarrow>
            (\<exists>fid stored. get_id self emb = Inr (Some fid, self) \<and> (fid, stored) \<in> set (db self)
               \<and> dot emb stored = Max (set (sims self emb))))
       \<and> (db self = [] \<or> Max (set (sims self emb)) \<le> thresh self \<longrightarrow>
            get_id self emb =
              Inr (Some (next_id self),
                   self\<lparr>db := AList.update (next_id self) emb (db self),
                        next_id := next_id self + 1\<rparr>))
       \<and> (get_ids (FaceMemory_init t) embs = Inr self \<and> db self = [] \<longrightarrow>
            get_id self emb = Inr (Some 1, self\<lparr>db := [(1, emb)], next_id := 2\<rparr>))
       \<and> (get_ids (FaceMemory_init t) embs = Inr self \<longrightarrow>
            (\<forall>fid' self' k stored.
               get_id self emb = Inr (fid', self') \<and> map_of (db self) k = Some stored \<longrightarrow>
               map_of (db self') k = Some stored))"
proof (intro conjI impI)
  assume "db self \<noteq> [] \<and> thresh self < Max (set (sims self emb))"
  then show "\<exists>fid stored. get_id self emb = Inr (Some fid, self) \<and> (fid, stored) \<in> set (db self)
               \<and> dot emb stored = Max (set (sims self emb))"
    using get_id_hit [OF dims th] by blast
next
  assume "db self = [] \<or> Max (set (sims self emb)) \<le> thresh self"
  then show "get_id self emb =
              Inr (Some (next_id self),
                   self\<lparr>db := AList.update (next_id self) emb (db self),
                        next_id := next_id self + 1\<rparr>)"
    by (rule get_id_miss [OF dims th])
next
  assume a: "get_ids (FaceMemory_init t) embs = Inr self \<and> db self = []"
  from get_ids_thresh a have "thresh self = t" by (fastforce simp: FaceMemory_init_def)
  with th have "0 \<le> thresh (FaceMemory_init t)" by (simp add: FaceMemory_init_def)
  from get_ids_empty_is_start [OF this] a have s: "self = FaceMemory_init t" by blast
  then have "db self = []" and "next_id self = 1" by (simp_all add: FaceMemory_init_def)
  with get_id_miss [OF dims th]
  show "get_id self emb = Inr (Some 1, self\<lparr>db := [(1, emb)], next_id := 2\<rparr>)"
    by simp
next
  assume a: "get_ids (FaceMemory_init t) embs = Inr self"
  have "\<forall>k \<in> fst ` set (db (FaceMemory_init t)). k < next_id (FaceMemory_init t)"
    by (simp add: FaceMemory_init_def)
  from get_ids_keys_below [OF a this]
  have below: "\<forall>k \<in> fst ` set (db self). k < next_id self" .
  show "\<forall>fid' self' k stored.
               get_id self emb = Inr (fid', self') \<and> map_of (db self) k = Some stored \<longrightarrow>
               map_of (db self') k = Some stored"
    using get_id_permanent [OF _ below] by blast
qed

lemma two_faces_memory_reached:
  "get_ids (FaceMemory_init 0.45) [[1, 0], [0, 1]] = Inr two_faces_memory"
  by (simp add: FaceMemory_init_def two_faces_memory_def get_id_def cosine_def dot_def)

theorem get_id_spec_witness:
  "get_id two_faces_memory [0.6, 0.8] = Inr (Some 2, two_faces_memory)
   \<and> get_id two_faces_memory [0.4, 0.3]
       = Inr (Some 3, two_faces_memory\<lparr>db := [(1, [1, 0]), (2, [0, 1]), (3, [0.4, 0.3])],
                                       next_id := 4\<rparr>)
   \<and> get_id (FaceMemory_init 0.45) [0.6, 0.8]
       = Inr (Some 1, (FaceMemory_init 0.45)\<lparr>db := [(1, [0.6, 0.8])], next_id := 2\<rparr>)
   \<and> get_ids (FaceMemory_init 0.45) [[1, 0], [0, 1]] = Inr two_faces_memory"
proof -
  have m: "Max (set (sims two_faces_memory [0.6, 0.8])) = 0.8"
    by (simp add: sims_def two_faces_memory_def dot_def)
  have d: "dot [0.6, 0.8] stored = 0.8 \<Longrightarrow> (fid, stored) \<in> set (db two_faces_memory) \<Longrightarrow> fid = 2"
    for fid stored
    by (auto simp: two_faces_memory_def dot_def)
  have dims: "\<forall>(fid, stored) \<in> set (db two_faces_memory). length stored = length [0.6, 0.8 :: real]"
    by (simp add: two_faces_memory_def)
  have th: "0 \<le> thresh two_faces_memory" by (simp add: two_faces_memory_def)
  have ne: "db two_faces_memory \<noteq> []" by (simp add: two_faces_memory_def)
  have big: "thresh two_faces_memory < Max (set (sims two_faces_memory [0.6, 0.8]))"
    unfolding m by (simp add: two_faces_memory_def)
  from get_id_spec [OF dims th, of "0.45" "[]"] ne big
  obtain fid stored where g: "get_id two_faces_memory [0.6, 0.8] = Inr (Some fid, two_faces_memory)"
    and mem: "(fid, stored) \<in> set (db two_faces_memory)"
    and mx: "dot [0.6, 0.8] stored = Max (set (sims two_faces_memory [0.6, 0.8]))"
    by blast
  from d [OF mx [unfolded m] mem] g
  have a: "get_id two_faces_memory [0.6, 0.8] = Inr (Some 2, two_faces_memory)" by simp
  have b: "get_id two_faces_memory [0.4, 0.3]
       = Inr (Some 3, two_faces_memory\<lparr>db := [(1, [1, 0]), (2, [0, 1]), (3, [0.4, 0.3])],
                                       next_id := 4\<rparr>)"
    using get_id_spec [of two_faces_memory "[0.4, 0.3]" "0.45" "[]"]
    by (simp add: two_faces_memory_def sims_def dot_def)
  have c: "get_id (FaceMemory_init 0.45) [0.6, 0.8]
       = Inr (Some 1, (FaceMemory_init 0.45)\<lparr>db := [(1, [0.6, 0.8])], next_id := 2\<rparr>)"
    using get_id_spec [of "FaceMemory_init 0.45" "[0.6, 0.8]" "0.45" "[]"]
    by (simp add: FaceMemory_init_def)
  show ?thesis using a b c two_faces_memory_reached by simp
qed

section \<open>Eviction of stale faces\<close>

lemma move_stale_tracking:
  "map_of (face_tracking (move_stale sl self)) k =
     (if k \<in> fst ` set sl then None else map_of (face_tracking self) k)"
proof (induction sl arbitrary: self)
  case Nil
  then show ?case by simp
next
  case (Cons p sl)
  obtain fid e where p: "p = (fid, e)" by (cases p)
  show ?case
    by (auto simp: p Cons.IH AList.delete_conv')
qed

lemma move_stale_history:
  "distinct (map fst sl) \<Longrightarrow>
   map_of (face_history (move_stale sl self)) k =
     (case map_of sl k of Some e \<Rightarrow> Some e | None \<Rightarrow> map_of (face_history self) k)"
proof (induction sl arbitrary: self)
  case Nil
  then show ?case by simp
next
  case (Cons p sl)
  obtain fid e where p: "p = (fid, e)" by (cases p)
  from Cons.prems p have d: "distinct (map fst sl)" and n: "fid \<notin> fst ` set sl" by auto
  from n have none: "map_of sl fid = None" by (simp add: map_of_eq_None_iff)
  show ?case
    using none by (auto simp: p Cons.IH [OF d] AList.update_conv' split: option.splits)
qed

lemma move_stale_more:
  "face_tables.more (move_stale sl self) = face_tables.more self"
  by (induction sl arbitrary: self) auto

lemma stale_distinct:
  "distinct (map fst tbl) \<Longrightarrow> distinct (map fst (stale cfg t tbl))"
  by (simp add: stale_def distinct_map_filter)

lemma stale_lookup:
  assumes "distinct (map fst tbl)" and "map_of tbl k = Some e"
  shows "map_of (stale cfg t tbl) k =
           (if t - last_seen e > STALE_FACE_TIMEOUT cfg then Some e else None)"
proof (cases "t - last_seen e > STALE_FACE_TIMEOUT cfg")
  case True
  from assms(2) True have "map_of (filter (\<lambda>(fid, e). t - last_seen e > STALE_FACE_TIMEOUT cfg) tbl) k = Some e"
    by (rule map_of_filter_in)
  with True show ?thesis by (simp add: stale_def)
next
  case False
  have "k \<notin> fst ` set (stale cfg t tbl)"
  proof
    assume "k \<in> fst ` set (stale cfg t tbl)"
    then obtain e' where in_tbl: "(k, e') \<in> set tbl"
      and st: "t - last_seen e' > STALE_FACE_TIMEOUT cfg"
      by (auto simp: stale_def)
    from assms(1) in_tbl have "map_of tbl k = Some e'" by (rule map_of_is_SomeI)
    with assms(2) have "e' = e" by simp
    with st False show False by simp
  qed
  then have "map_of (stale cfg t tbl) k = None" by (simp add: map_of_eq_None_iff)
  with False show ?thesis by simp
qed

lemma evict_lookup:
  assumes d: "distinct (map fst (face_tracking self))"
    and e: "map_of (face_tracking self) k = Some e"
  shows "map_of (face_tracking (move_stale (stale cfg t (face_tracking self)) self)) k =
           (if t - last_seen e > STALE_FACE_TIMEOUT cfg then None else Some e)"
    and "map_of (face_history (move_stale (stale cfg t (face_tracking self)) self)) k =
           (if t - last_seen e > STALE_FACE_TIMEOUT cfg then Some e
            else map_of (face_history self) k)"
proof -
  let ?sl = "stale cfg t (face_tracking self)"
  have l: "map_of ?sl k = (if t - last_seen e > STALE_FACE_TIMEOUT cfg then Some e else None)"
    by (rule stale_lookup [OF d e])
  have "k \<in> fst ` set ?sl \<longleftrightarrow> map_of ?sl k \<noteq> None"
    by (simp add: map_of_eq_None_iff)
  then have in_iff: "k \<in> fst ` set ?sl \<longleftrightarrow> t - last_seen e > STALE_FACE_TIMEOUT cfg"
    by (simp add: l)
  show "map_of (face_tracking (move_stale ?sl self)) k =
           (if t - last_seen e > STALE_FACE_TIMEOUT cfg then None else Some e)"
    by (simp add: move_stale_tracking in_iff e)
  show "map_of (face_history (move_stale ?sl self)) k =
           (if t - last_seen e > STALE_FACE_TIMEOUT cfg then Some e
            else map_of (face_history self) k)"
    by (simp add: move_stale_history [OF stale_distinct [OF d]] l)
qed

lemma update_no_detections:
  "update cfg self [] now dt = Inr (cleanup_stale cfg self now, [])"
  by (simp add: update_def compute_distances_def greedy_assignment_def assign_ids_def)

lemma move_stale_tables_only:
  "face_tracking s = face_tracking s' \<Longrightarrow> face_history s = face_history s' \<Longrightarrow>
   face_tracking (move_stale sl s) = face_tracking (move_stale sl s')
   \<and> face_history (move_stale sl s) = face_history (move_stale sl s')"
proof (induction sl arbitrary: s s')
  case Nil
  then show ?case by simp
next
  case (Cons p sl)
  obtain fid e where p: "p = (fid, e)" by (cases p)
  show ?case
    unfolding p move_stale.simps
    by (rule Cons.IH) (simp_all add: Cons.prems)
qed

lemma move_stale_prev_time:
  "face_tracking (move_stale sl (s\<lparr>prev_time := x\<rparr>)) = face_tracking (move_stale sl s)
   \<and> face_history (move_stale sl (s\<lparr>prev_time := x\<rparr>)) = face_history (move_stale sl s)"
  by (rule move_stale_tables_only) simp_all

lemma move_stale_main_fields:
  "timeline (move_stale sl s) = timeline s \<and> time_axis (move_stale sl s) = time_axis s
   \<and> frame_count (move_stale sl s) = frame_count s"
  by (induction sl arbitrary: s) auto

lemma main_frame_no_faces:
  "fst (main_frame cfg s \<lparr>time_now = now, detected = []\<rparr>) = None
   \<and> face_tracking (snd (main_frame cfg s \<lparr>time_now = now, detected = []\<rparr>))
       = face_tracking (move_stale (stale cfg now (face_tracking s)) s)
   \<and> face_history (snd (main_frame cfg s \<lparr>time_now = now, detected = []\<rparr>))
       = face_history (move_stale (stale cfg now (face_tracking s)) s)"
  by (simp add: main_frame_def Let_def move_stale_prev_time move_stale_main_fields)

section \<open>Greedy assignment\<close>

lemma update_fresh_key:
  "k \<notin> fst ` set al \<Longrightarrow> AList.update k v al = al @ [(k, v)]"
  by (induction al) auto

lemma greedy_loop_total:
  "\<forall>(d, i, fid) \<in> set ps. i < length dets \<Longrightarrow> \<exists>st'. greedy_loop dets ps st = Inr st'"
proof (induction ps arbitrary: st)
  case Nil
  obtain ac ap asg where st: "st = (ac, ap, asg)" by (metis prod_cases3)
  show ?case by (simp add: st)
next
  case (Cons p ps)
  obtain d i fid where p: "p = (d, i, fid)" by (cases p)
  obtain ac ap asg where st: "st = (ac, ap, asg)" by (metis prod_cases3)
  from Cons.prems p have i: "i < length dets"
    and rest: "\<forall>(d, i, fid) \<in> set ps. i < length dets" by auto
  show ?case
    unfolding p st using i Cons.IH [OF rest]
    by (auto simp: Let_def split: prod.splits)
qed

lemma greedy_loop_invariant:
  assumes "greedy_loop dets ps (ac, ap, asg) = Inr (ac', ap', asg')"
    and "fst ` set asg = ac" and "snd ` set asg = ap"
    and "distinct (map fst asg)" and "distinct (map snd asg)"
  shows "fst ` set asg' = ac' \<and> snd ` set asg' = ap'
         \<and> distinct (map fst asg') \<and> distinct (map snd asg')
         \<and> (\<forall>(i, fid) \<in> set asg'.
               (i, fid) \<in> set asg
               \<or> (\<exists>d. (d, i, fid) \<in> set ps \<and> i < length dets \<and> d \<le> match_gate (dets ! i)))"
  using assms
proof (induction ps arbitrary: ac ap asg)
  case Nil
  then show ?case by auto
next
  case (Cons p ps)
  obtain d i fid where p: "p = (d, i, fid)" by (cases p)
  show ?case
  proof (cases "i \<in> ac \<or> fid \<in> ap")
    case True
    with Cons.prems(1) have "greedy_loop dets ps (ac, ap, asg) = Inr (ac', ap', asg')"
      by (simp add: p)
    from Cons.IH [OF this Cons.prems(2-5)] show ?thesis by (auto simp: p)
  next
    case False
    then have ni: "i \<notin> ac" and nf: "fid \<notin> ap" by auto
    show ?thesis
    proof (cases "i < length dets")
      case False
      with Cons.prems(1) ni nf show ?thesis by (simp add: p)
    next
      case True
      obtain x y w h where r: "rect (dets ! i) = (x, y, w, h)" by (cases "rect (dets ! i)")
      have g: "match_gate (dets ! i) = max 50 (max w h * 0.6)"
        by (simp add: match_gate_def r mult.commute)
      show ?thesis
      proof (cases "d \<le> max 50 (max w h * 0.6)")
        case False
        with Cons.prems(1) ni nf True r
        have "greedy_loop dets ps (ac, ap, asg) = Inr (ac', ap', asg')"
          by (simp add: p Let_def)
        from Cons.IH [OF this Cons.prems(2-5)] show ?thesis by (auto simp: p)
      next
        case le: True
        have upd: "AList.update i fid asg = asg @ [(i, fid)]"
          using ni Cons.prems(2) by (simp add: update_fresh_key)
        from Cons.prems(1) ni nf True r le
        have run: "greedy_loop dets ps (insert i ac, insert fid ap, asg @ [(i, fid)])
                = Inr (ac', ap', asg')"
          by (simp add: p Let_def upd)
        have a1: "fst ` set (asg @ [(i, fid)]) = insert i ac" using Cons.prems(2) by auto
        have a2: "snd ` set (asg @ [(i, fid)]) = insert fid ap" using Cons.prems(3) by auto
        have a3: "distinct (map fst (asg @ [(i, fid)]))"
          using Cons.prems(2,4) ni by auto
        have a4: "distinct (map snd (asg @ [(i, fid)]))"
          using Cons.prems(3,5) nf by auto
        from Cons.IH [OF run a1 a2 a3 a4]
        have ih: "fst ` set asg' = ac' \<and> snd ` set asg' = ap'
           \<and> distinct (map fst asg') \<and> distinct (map snd asg')
           \<and> (\<forall>(j, f) \<in> set asg'.
               (j, f) \<in> set (asg @ [(i, fid)])
               \<or> (\<exists>d. (d, j, f) \<in> set ps \<and> j < length dets \<and> d \<le> match_gate (dets ! j)))"
          .
        have step: "(j, f) \<in> set asg
               \<or> (\<exists>d. (d, j, f) \<in> set (p # ps) \<and> j < length dets \<and> d \<le> match_gate (dets ! j))"
          if m: "(j, f) \<in> set asg'" for j f
        proof (cases "(j, f) \<in> set asg")
          case True
          then show ?thesis by simp
        next
          case n: False
          from ih m consider (just_now) "(j, f) \<in> set (asg @ [(i, fid)])"
            | (later) "\<exists>d. (d, j, f) \<in> set ps \<and> j < length dets \<and> d \<le> match_gate (dets ! j)"
            by fastforce
          then have "\<exists>d. (d, j, f) \<in> set (p # ps) \<and> j < length dets \<and> d \<le> match_gate (dets ! j)"
          proof cases
            case just_now
            with n have "j = i" "f = fid" by auto
            with \<open>i < length dets\<close> le g show ?thesis by (auto simp: p)
          next
            case later
            then show ?thesis by auto
          qed
          then show ?thesis by simp
        qed
        then have "\<forall>(j, f) \<in> set asg'.
               (j, f) \<in> set asg
               \<or> (\<exists>d. (d, j, f) \<in> set (p # ps) \<and> j < length dets \<and> d \<le> match_gate (dets ! j))"
          by auto
        with ih show ?thesis by blast
      qed
    qed
  qed
qed

lemma compute_distances_alt:
  "compute_distances self dets =
     concat (map (\<lambda>p. map (\<lambda>q. (centroid_distance (center (snd q)) (detection.center (snd p)),
                                  fst p, fst q))
                        (face_tracking self))
                 (enumerate 0 dets))"
  by (simp add: compute_distances_def centroid_distance_def case_prod_unfold)

lemma compute_distances_set:
  "(d, i, fid) \<in> set (compute_distances self dets) \<longleftrightarrow>
     i < length dets
     \<and> (\<exists>prev. (fid, prev) \<in> set (face_tracking self)
           \<and> d = centroid_distance (center prev) (detection.center (dets ! i)))"
proof
  assume "(d, i, fid) \<in> set (compute_distances self dets)"
  then obtain p q where p: "p \<in> set (enumerate 0 dets)" and q: "q \<in> set (face_tracking self)"
    and e: "(d, i, fid) = (centroid_distance (center (snd q)) (detection.center (snd p)),
                                  fst p, fst q)"
    unfolding compute_distances_alt by auto
  from p have "fst p < length dets" and "snd p = dets ! fst p"
    by (auto simp: in_set_enumerate_eq)
  moreover obtain f pr where "q = (f, pr)" by (cases "q")
  ultimately show "i < length dets
     \<and> (\<exists>prev. (fid, prev) \<in> set (face_tracking self)
           \<and> d = centroid_distance (center prev) (detection.center (dets ! i)))"
    using q e by auto
next
  assume a: "i < length dets
     \<and> (\<exists>prev. (fid, prev) \<in> set (face_tracking self)
           \<and> d = centroid_distance (center prev) (detection.center (dets ! i)))"
  then obtain prev where q: "(fid, prev) \<in> set (face_tracking self)"
    and d: "d = centroid_distance (center prev) (detection.center (dets ! i))" by blast
  from a have p: "(i, dets ! i) \<in> set (enumerate 0 dets)"
    by (simp add: in_set_enumerate_eq)
  show "(d, i, fid) \<in> set (compute_distances self dets)"
    unfolding compute_distances_alt set_concat set_map
    using p q d by force
qed

lemma greedy_loop_maximal:
  assumes "greedy_loop dets ps (ac, ap, asg) = Inr (ac', ap', asg')"
  shows "ac \<subseteq> ac' \<and> ap \<subseteq> ap'
         \<and> (\<forall>(d, i, fid) \<in> set ps.
               i < length dets \<and> d \<le> match_gate (dets ! i) \<longrightarrow> i \<in> ac' \<or> fid \<in> ap')"
  using assms
proof (induction ps arbitrary: ac ap asg)
  case Nil
  then show ?case by auto
next
  case (Cons p ps)
  obtain d i fid where p: "p = (d, i, fid)" by (cases p)
  show ?case
  proof (cases "i \<in> ac \<or> fid \<in> ap")
    case True
    with Cons.prems have "greedy_loop dets ps (ac, ap, asg) = Inr (ac', ap', asg')"
      by (simp add: p)
    from Cons.IH [OF this] True show ?thesis by (auto simp: p)
  next
    case False
    then have ni: "i \<notin> ac" and nf: "fid \<notin> ap" by auto
    show ?thesis
    proof (cases "i < length dets")
      case False
      with Cons.prems ni nf show ?thesis by (simp add: p)
    next
      case True
      obtain x y w h where r: "rect (dets ! i) = (x, y, w, h)" by (cases "rect (dets ! i)")
      have g: "match_gate (dets ! i) = max 50 (max w h * 0.6)"
        by (simp add: match_gate_def r mult.commute)
      show ?thesis
      proof (cases "d \<le> max 50 (max w h * 0.6)")
        case False
        with Cons.prems ni nf True r
        have "greedy_loop dets ps (ac, ap, asg) = Inr (ac', ap', asg')"
          by (simp add: p Let_def)
        from Cons.IH [OF this] False g show ?thesis by (auto simp: p)
      next
        case le: True
        from Cons.prems ni nf True r le
        have "greedy_loop dets ps (insert i ac, insert fid ap, AList.update i fid asg)
                = Inr (ac', ap', asg')"
          by (simp add: p Let_def)
        from Cons.IH [OF this] show ?thesis by (auto simp: p)
      qed
    qed
  qed
qed

text \<open>
  Claim C7.  For every tracker state and every list of detections, \<^verbatim>\<open>_greedy_assignment\<close> on
  the pairs of \<^verbatim>\<open>_compute_distances\<close> returns without raising; no detection index occurs
  twice among its keys and no face id twice among its values; every accepted pair joins a
  detection with an active face whose centroid distance is at most
  \<open>max 50 (0.6 * max w h)\<close> for the detection's box; and every candidate pair within
  that gate has at least one side claimed at the end, so a pair is turned down only for a
  claimed side or for its distance.  The same holds for any list of pairs whose detection
  indices are in range.
\<close>

theorem greedy_assignment_one_to_one:
  "(\<exists>assignments.
      greedy_assignment curr_detections (compute_distances self curr_detections) = Inr assignments
      \<and> distinct (map fst assignments) \<and> distinct (map snd assignments)
      \<and> (\<forall>(i, fid) \<in> set assignments.
            i < length curr_detections
            \<and> (\<exists>prev. (fid, prev) \<in> set (face_tracking self)
                  \<and> centroid_distance (center prev) (detection.center (curr_detections ! i))
                      \<le> match_gate (curr_detections ! i)))
      \<and> (\<forall>(d, i, fid) \<in> set (compute_distances self curr_detections).
            d \<le> match_gate (curr_detections ! i) \<longrightarrow>
            i \<in> fst ` set assignments \<or> fid \<in> snd ` set assignments))
   \<and> ((\<forall>(d, i, fid) \<in> set pairs. i < length curr_detections) \<longrightarrow>
       (\<exists>assignments.
          greedy_assignment curr_detections pairs = Inr assignments
          \<and> distinct (map fst assignments) \<and> distinct (map snd assignments)
          \<and> (\<forall>(i, fid) \<in> set assignments.
                \<exists>d. (d, i, fid) \<in> set pairs \<and> d \<le> match_gate (curr_detections ! i))))"
proof -
  have general: "\<exists>assignments.
          greedy_assignment curr_detections ps = Inr assignments
          \<and> distinct (map fst assignments) \<and> distinct (map snd assignments)
          \<and> (\<forall>(i, fid) \<in> set assignments.
                \<exists>d. (d, i, fid) \<in> set ps \<and> d \<le> match_gate (curr_detections ! i))
          \<and> (\<forall>(d, i, fid) \<in> set ps.
                d \<le> match_gate (curr_detections ! i) \<longrightarrow>
                i \<in> fst ` set assignments \<or> fid \<in> snd ` set assignments)"
    if range: "\<forall>(d, i, fid) \<in> set ps. i < length curr_detections" for ps
  proof -
    from range have "\<forall>(d, i, fid) \<in> set (sort_key fst ps). i < length curr_detections"
      by simp
    from greedy_loop_total [OF this, of "({}, {}, [])"]
    obtain ac ap asg where run: "greedy_loop curr_detections (sort_key fst ps) ({}, {}, []) = Inr (ac, ap, asg)"
      by (metis prod_cases3)
    from greedy_loop_invariant [OF run]
    have inv: "fst ` set asg = ac \<and> snd ` set asg = ap
         \<and> distinct (map fst asg) \<and> distinct (map snd asg)
         \<and> (\<forall>(i, fid) \<in> set asg.
               (i, fid) \<in> set []
               \<or> (\<exists>d. (d, i, fid) \<in> set (sort_key fst ps) \<and> i < length curr_detections
                      \<and> d \<le> match_gate (curr_detections ! i)))"
      by simp
    from greedy_loop_maximal [OF run]
    have mx: "\<forall>(d, i, fid) \<in> set (sort_key fst ps).
               i < length curr_detections \<and> d \<le> match_gate (curr_detections ! i) \<longrightarrow> i \<in> ac \<or> fid \<in> ap"
      by simp
    have r: "greedy_assignment curr_detections ps = Inr asg"
      by (simp add: greedy_assignment_def run)
    have "\<forall>(i, fid) \<in> set asg. \<exists>d. (d, i, fid) \<in> set ps \<and> d \<le> match_gate (curr_detections ! i)"
      using inv by fastforce
    moreover have "\<forall>(d, i, fid) \<in> set ps.
                d \<le> match_gate (curr_detections ! i) \<longrightarrow> i \<in> fst ` set asg \<or> fid \<in> snd ` set asg"
      using mx range inv by fastforce
    ultimately show ?thesis using r inv by blast
  qed
  have range: "\<forall>(d, i, fid) \<in> set (compute_distances self curr_detections). i < length curr_detections"
    by (auto simp: compute_distances_set)
  from general [OF range]
  obtain asg where r: "greedy_assignment curr_detections (compute_distances self curr_detections) = Inr asg"
    and d1: "distinct (map fst asg)" and d2: "distinct (map snd asg)"
    and within: "\<forall>(i, fid) \<in> set asg.
                \<exists>d. (d, i, fid) \<in> set (compute_distances self curr_detections)
                     \<and> d \<le> match_gate (curr_detections ! i)"
    and mx: "\<forall>(d, i, fid) \<in> set (compute_distances self curr_detections).
                d \<le> match_gate (curr_detections ! i) \<longrightarrow>
                i \<in> fst ` set asg \<or> fid \<in> snd ` set asg"
    by blast
  have "\<forall>(i, fid) \<in> set asg.
            i < length curr_detections
            \<and> (\<exists>prev. (fid, prev) \<in> set (face_tracking self)
                  \<and> centroid_distance (center prev) (detection.center (curr_detections ! i))
                      \<le> match_gate (curr_detections ! i))"
    using within by (fastforce simp: compute_distances_set)
  with r d1 d2 mx have first: "\<exists>assignments.
      greedy_assignment curr_detections (compute_distances self curr_detections) = Inr assignments
      \<and> distinct (map fst assignments) \<and> distinct (map snd assignments)
      \<and> (\<forall>(i, fid) \<in> set assignments.
            i < length curr_detections
            \<and> (\<exists>prev. (fid, prev) \<in> set (face_tracking self)
                  \<and> centroid_distance (center prev) (detection.center (curr_detections ! i))
                      \<le> match_gate (curr_detections ! i)))
      \<and> (\<forall>(d, i, fid) \<in> set (compute_distances self curr_detections).
            d \<le> match_gate (curr_detections ! i) \<longrightarrow>
            i \<in> fst ` set assignments \<or> fid \<in> snd ` set assignments)"
    by blast
  show ?thesis
  proof (intro conjI impI)
    show "\<exists>assignments.
      greedy_assignment curr_detections (compute_distances self curr_detections) = Inr assignments
      \<and> distinct (map fst assignments) \<and> distinct (map snd assignments)
      \<and> (\<forall>(i, fid) \<in> set assignments.
            i < length curr_detections
            \<and> (\<exists>prev. (fid, prev) \<in> set (face_tracking self)
                  \<and> centroid_distance (center prev) (detection.center (curr_detections ! i))
                      \<le> match_gate (curr_detections ! i)))
      \<and> (\<forall>(d, i, fid) \<in> set (compute_distances self curr_detections).
            d \<le> match_gate (curr_detections ! i) \<longrightarrow>
            i \<in> fst ` set assignments \<or> fid \<in> snd ` set assignments)"
      by (rule first)
  next
    assume "\<forall>(d, i, fid) \<in> set pairs. i < length curr_detections"
    from general [OF this]
    show "\<exists>assignments.
          greedy_assignment curr_detections pairs = Inr assignments
          \<and> distinct (map fst assignments) \<and> distinct (map snd assignments)
          \<and> (\<forall>(i, fid) \<in> set assignments.
                \<exists>d. (d, i, fid) \<in> set pairs \<and> d \<le> match_gate (curr_detections ! i))"
      by blast
  qed
qed

lemma two_close_pairs:
  "compute_distances two_tracked two_close_detections
     = [(10, 0, 1), (490, 0, 2), (20, 1, 1), (480, 1, 2)]"
  by (simp add: compute_distances_def two_tracked_def two_close_detections_def near_face_def
      far_face_def enumerate_eq_zip upt_rec)

theorem greedy_assignment_one_to_one_witness:
  "greedy_assignment two_close_detections (compute_distances two_tracked two_close_detections)
     = Inr [(0, 1)]
   \<and> match_gate (two_close_detections ! 0) = 60"
proof -
  have run: "greedy_assignment two_close_detections (compute_distances two_tracked two_close_detections)
     = Inr [(0, 1)]"
    unfolding two_close_pairs
    by (simp add: greedy_assignment_def two_close_detections_def Let_def)
  have g: "match_gate (two_close_detections ! 0) = 60"
    by (simp add: match_gate_def two_close_detections_def)
  have r: "\<forall>(d, i, fid) \<in> set (compute_distances two_tracked two_close_detections).
             i < length two_close_detections"
    unfolding two_close_pairs by (simp add: two_close_detections_def)
  from greedy_assignment_one_to_one [of two_close_detections two_tracked
      "compute_distances two_tracked two_close_detections"] r run g
  show ?thesis by simp
qed

section \<open>The frame tracker\<close>

lemma assign_ids_loop_spec:
  assumes "assign_ids_loop asg t self xs = (self', out)"
    and "\<forall>k \<in> fst ` set (face_tracking self). k < next_face_id self"
  shows "next_face_id self' = next_face_id self + length (filter (\<lambda>p. map_of asg (fst p) = None) xs)
    \<and> face_tracking self' =
         face_tracking self
         @ zip [next_face_id self ..< next_face_id self']
               (map (\<lambda>p. new_face t (snd p)) (filter (\<lambda>p. map_of asg (fst p) = None) xs))
    \<and> face_history self' = face_history self
    \<and> length out = length xs
    \<and> (\<forall>j < length xs.
          out ! j = (snd (xs ! j))\<lparr>face_id :=
            Some (case map_of asg (fst (xs ! j)) of
                    Some f \<Rightarrow> f
                  | None \<Rightarrow> next_face_id self
                            + length (filter (\<lambda>p. map_of asg (fst p) = None) (take j xs)))\<rparr>)"
  using assms
proof (induction xs arbitrary: self self' out)
  case Nil
  then show ?case by simp
next
  case (Cons p xs)
  obtain i cur where p: "p = (i, cur)" by (cases p)
  let ?unm = "\<lambda>p. map_of asg (fst p) = None"
  show ?case
  proof (cases "map_of asg i")
    case (Some f)
    obtain s1 o1 where r: "assign_ids_loop asg t self xs = (s1, o1)"
      by (cases "assign_ids_loop asg t self xs")
    with Cons.prems(1) Some have s: "self' = s1" and o: "out = cur\<lparr>face_id := Some f\<rparr> # o1"
      by (simp_all add: p)
    note ih = Cons.IH [OF r Cons.prems(2)]
    have idx: "\<forall>j < length (p # xs).
          out ! j = (snd ((p # xs) ! j))\<lparr>face_id :=
            Some (case map_of asg (fst ((p # xs) ! j)) of
                    Some f \<Rightarrow> f
                  | None \<Rightarrow> next_face_id self
                            + length (filter ?unm (take j (p # xs))))\<rparr>"
    proof (intro allI impI)
      fix j assume j: "j < length (p # xs)"
      show "out ! j = (snd ((p # xs) ! j))\<lparr>face_id :=
            Some (case map_of asg (fst ((p # xs) ! j)) of
                    Some f \<Rightarrow> f
                  | None \<Rightarrow> next_face_id self
                            + length (filter ?unm (take j (p # xs))))\<rparr>"
      proof (cases j)
        case 0
        then show ?thesis by (simp add: o p Some)
      next
        case (Suc j')
        with j have "j' < length xs" by simp
        with ih have "o1 ! j' = (snd (xs ! j'))\<lparr>face_id :=
            Some (case map_of asg (fst (xs ! j')) of
                    Some f \<Rightarrow> f
                  | None \<Rightarrow> next_face_id self + length (filter ?unm (take j' xs)))\<rparr>"
          by blast
        then show ?thesis unfolding Suc by (simp add: o p Some split: option.split)
      qed
    qed
    from ih idx show ?thesis by (simp add: s o p Some)
  next
    case None
    let ?n = "next_face_id self"
    let ?s2 = "self\<lparr>next_face_id := ?n + 1,
                    face_tracking := AList.update ?n (new_face t cur) (face_tracking self)\<rparr>"
    obtain s1 o1 where r: "assign_ids_loop asg t ?s2 xs = (s1, o1)"
      by (cases "assign_ids_loop asg t ?s2 xs")
    with Cons.prems(1) None have s: "self' = s1" and o: "out = cur\<lparr>face_id := Some ?n\<rparr> # o1"
      by (simp_all add: p Let_def new_face_def)
    have fresh: "?n \<notin> fst ` set (face_tracking self)" using Cons.prems(2) by auto
    then have tr2: "face_tracking ?s2 = face_tracking self @ [(?n, new_face t cur)]"
      by (simp add: update_fresh_key)
    have below2: "\<forall>k \<in> fst ` set (face_tracking ?s2). k < next_face_id ?s2"
      unfolding tr2 using Cons.prems(2) by auto
    note ih = Cons.IH [OF r below2]
    from ih have n1: "next_face_id s1 = ?n + 1 + length (filter ?unm xs)" by simp
    have upt: "[?n ..< next_face_id s1] = ?n # [?n + 1 ..< next_face_id s1]"
    proof -
      have "?n < next_face_id s1" using n1 by simp
      from upt_conv_Cons [OF this] show ?thesis by simp
    qed
    from ih have "face_tracking s1 =
         face_tracking ?s2
         @ zip [?n + 1 ..< next_face_id s1] (map (\<lambda>p. new_face t (snd p)) (filter ?unm xs))"
      by simp
    then have tr: "face_tracking s1 =
         face_tracking self
         @ zip [?n ..< next_face_id s1]
               (map (\<lambda>p. new_face t (snd p)) (filter ?unm (p # xs)))"
      unfolding tr2 upt by (simp add: p None)
    have idx: "\<forall>j < length (p # xs).
          out ! j = (snd ((p # xs) ! j))\<lparr>face_id :=
            Some (case map_of asg (fst ((p # xs) ! j)) of
                    Some f \<Rightarrow> f
                  | None \<Rightarrow> ?n + length (filter ?unm (take j (p # xs))))\<rparr>"
    proof (intro allI impI)
      fix j assume j: "j < length (p # xs)"
      show "out ! j = (snd ((p # xs) ! j))\<lparr>face_id :=
            Some (case map_of asg (fst ((p # xs) ! j)) of
                    Some f \<Rightarrow> f
                  | None \<Rightarrow> ?n + length (filter ?unm (take j (p # xs))))\<rparr>"
      proof (cases j)
        case 0
        then show ?thesis by (simp add: o p None)
      next
        case (Suc j')
        with j have "j' < length xs" by simp
        with ih have "o1 ! j' = (snd (xs ! j'))\<lparr>face_id :=
            Some (case map_of asg (fst (xs ! j')) of
                    Some f \<Rightarrow> f
                  | None \<Rightarrow> next_face_id ?s2 + length (filter ?unm (take j' xs)))\<rparr>"
          by blast
        then show ?thesis unfolding Suc by (simp add: o p None split: option.split)
      qed
    qed
    from ih n1 tr idx show ?thesis by (simp add: s o p None)
  qed
qed

lemma filter_take_count:
  assumes "j < length xs" and "P (xs ! j)"
  shows "filter P xs ! length (filter P (take j xs)) = xs ! j"
    and "length (filter P (take j xs)) < length (filter P xs)"
proof -
  have xs: "xs = take j xs @ xs ! j # drop (Suc j) xs"
    using assms(1) by (rule id_take_nth_drop)
  have f: "filter P xs = filter P (take j xs) @ xs ! j # filter P (drop (Suc j) xs)"
    by (subst xs) (simp add: assms(2))
  show "filter P xs ! length (filter P (take j xs)) = xs ! j"
    by (subst f) (simp add: nth_append)
  from arg_cong [OF f, of length]
  show "length (filter P (take j xs)) < length (filter P xs)"
    by simp
qed

lemma filter_take_count_mono:
  assumes "j < j'" and "j' < length xs" and "P (xs ! j)"
  shows "length (filter P (take j xs)) < length (filter P (take j' xs))"
proof -
  have "j < length (take j' xs)" using assms(1,2) by simp
  moreover have "P (take j' xs ! j)" using assms(1,3) by simp
  ultimately have "length (filter P (take j (take j' xs))) < length (filter P (take j' xs))"
    by (rule filter_take_count(2))
  moreover have "take j (take j' xs) = take j xs" using assms(1) by (simp add: min_def)
  ultimately show ?thesis by simp
qed

lemma filter_distinct_key:
  "distinct (map g xs) \<Longrightarrow> j < length xs \<Longrightarrow> filter (\<lambda>x. g x = g (xs ! j)) xs = [xs ! j]"
proof (induction xs arbitrary: j)
  case Nil
  then show ?case by simp
next
  case (Cons x xs)
  show ?case
  proof (cases j)
    case 0
    have "g y \<noteq> g x" if "y \<in> set xs" for y
      using Cons.prems(1) that by (metis distinct.simps(2) imageI list.set_map list.simps(9))
    then have "filter (\<lambda>y. g y = g x) xs = []"
      by (simp add: filter_empty_conv)
    with 0 show ?thesis by simp
  next
    case (Suc j')
    with Cons.prems have j': "j' < length xs" and d: "distinct (map g xs)" by auto
    from j' have "xs ! j' \<in> set xs" by simp
    with Cons.prems(1) have "g x \<noteq> g (xs ! j')" by auto
    with Cons.IH [OF d j'] Suc show ?thesis by simp
  qed
qed

lemma filter_absent_key:
  "\<forall>j < length xs. g (xs ! j) \<noteq> v \<Longrightarrow> filter (\<lambda>x. g x = v) xs = []"
  by (auto simp: filter_empty_conv in_set_conv_nth)

lemma distinct_snd_inj:
  "distinct (map snd al) \<Longrightarrow> (a, c) \<in> set al \<Longrightarrow> (b, c) \<in> set al \<Longrightarrow> a = b"
proof -
  assume d: "distinct (map snd al)" and a: "(a, c) \<in> set al" and b: "(b, c) \<in> set al"
  from d have "inj_on snd (set al)" by (simp add: distinct_map)
  from inj_onD [OF this _ a b] show ?thesis by simp
qed

lemma update_tracking_spec:
  assumes "\<forall>d \<in> set ds. \<exists>f. face_id d = Some f \<and> f \<in> fst ` set (face_tracking self)"
  shows "\<exists>self'. update_tracking self ds t dt = Inr self'
           \<and> face_history self' = face_history self
           \<and> next_face_id self' = next_face_id self
           \<and> map fst (face_tracking self') = map fst (face_tracking self)
           \<and> (\<forall>k. map_of (face_tracking self') k =
                  map_option (fold (seen_by t dt) (filter (\<lambda>d. face_id d = Some k) ds))
                    (map_of (face_tracking self) k))"
  using assms
proof (induction ds arbitrary: self)
  case Nil
  then show ?case by (simp add: option.map_ident)
next
  case (Cons d ds)
  from Cons.prems obtain f where f: "face_id d = Some f"
    and fin: "f \<in> fst ` set (face_tracking self)" by auto
  from fin obtain tr where tr: "map_of (face_tracking self) f = Some tr"
    by (metis map_of_eq_None_iff not_Some_eq)
  let ?s1 = "self\<lparr>face_tracking := AList.update f (seen_by t dt d tr) (face_tracking self)\<rparr>"
  have keys: "map fst (face_tracking ?s1) = map fst (face_tracking self)"
    using fin by (simp add: AList.update_keys)
  then have keyset: "fst ` set (face_tracking ?s1) = fst ` set (face_tracking self)"
    by (metis list.set_map)
  have "\<forall>d \<in> set ds. \<exists>f. face_id d = Some f \<and> f \<in> fst ` set (face_tracking ?s1)"
    unfolding keyset using Cons.prems by simp
  from Cons.IH [OF this] obtain self' where run: "update_tracking ?s1 ds t dt = Inr self'"
    and h: "face_history self' = face_history self"
    and n: "next_face_id self' = next_face_id self"
    and k: "map fst (face_tracking self') = map fst (face_tracking self)"
    and m: "\<forall>k. map_of (face_tracking self') k =
                  map_option (fold (seen_by t dt) (filter (\<lambda>d. face_id d = Some k) ds))
                    (map_of (face_tracking ?s1) k)"
    using keys by auto
  have step: "update_tracking self (d # ds) t dt = update_tracking ?s1 ds t dt"
    by (simp add: f tr seen_by_def)
  have "map_of (face_tracking self') k =
          map_option (fold (seen_by t dt) (filter (\<lambda>d. face_id d = Some k) (d # ds)))
            (map_of (face_tracking self) k)" for k
  proof (cases "k = f")
    case True
    with m tr f show ?thesis by (simp add: AList.update_conv')
  next
    case False
    with m f show ?thesis by (simp add: AList.update_conv')
  qed
  with step run h n k show ?case by auto
qed






lemma greedy_on_distances:
  "\<exists>asg. greedy_assignment dets (compute_distances self dets) = Inr asg
         \<and> distinct (map fst asg) \<and> distinct (map snd asg)
         \<and> (\<forall>(i, f) \<in> set asg. i < length dets \<and> f \<in> fst ` set (face_tracking self))"
proof -
  let ?ps = "sort_key fst (compute_distances self dets)"
  have range: "\<forall>(d, i, fid) \<in> set ?ps. i < length dets"
    by (auto simp: compute_distances_set)
  from greedy_loop_total [OF this, of "({}, {}, [])"]
  obtain ac ap asg where run: "greedy_loop dets ?ps ({}, {}, []) = Inr (ac, ap, asg)"
    by (metis prod_cases3)
  from greedy_loop_invariant [OF run]
  have inv: "distinct (map fst asg) \<and> distinct (map snd asg)
         \<and> (\<forall>(i, fid) \<in> set asg.
               (i, fid) \<in> set []
               \<or> (\<exists>d. (d, i, fid) \<in> set ?ps \<and> i < length dets \<and> d \<le> match_gate (dets ! i)))"
    by simp
  have "\<forall>(i, f) \<in> set asg. i < length dets \<and> f \<in> fst ` set (face_tracking self)"
  proof (clarify, intro conjI)
    fix i f assume "(i, f) \<in> set asg"
    with inv obtain d where d: "(d, i, f) \<in> set (compute_distances self dets)" by fastforce
    then show "i < length dets" by (simp add: compute_distances_set)
    from d obtain prev where "(f, prev) \<in> set (face_tracking self)"
      by (auto simp: compute_distances_set)
    then show "f \<in> fst ` set (face_tracking self)" by force
  qed
  moreover have "greedy_assignment dets (compute_distances self dets) = Inr asg"
    by (simp add: greedy_assignment_def run)
  ultimately show ?thesis using inv by blast
qed

lemma seen_by_center_only:
  "detection.center a = detection.center b \<Longrightarrow> seen_by t dt a = seen_by t dt b"
  by (simp add: seen_by_def fun_eq_iff)

lemma update_frame:
  assumes below: "\<forall>k \<in> fst ` set (face_tracking self). k < next_face_id self"
  shows "\<exists>asg s1 s2 out.
      greedy_assignment dets (compute_distances self dets) = Inr asg
      \<and> assign_ids self dets asg t = (s1, out)
      \<and> update_tracking s1 out t dt = Inr s2
      \<and> update cfg self dets t dt = Inr (cleanup_stale cfg s2 t, out)
      \<and> face_history s2 = face_history self
      \<and> next_face_id self \<le> next_face_id s2
      \<and> map fst (face_tracking s2)
          = map fst (face_tracking self) @ [next_face_id self ..< next_face_id s2]
      \<and> length out = length dets
      \<and> distinct (map face_id out)
      \<and> (\<forall>j < length dets. \<exists>f.
            out ! j = (dets ! j)\<lparr>face_id := Some f\<rparr>
            \<and> map_of (face_tracking s2) f =
                Some (seen_by t dt (dets ! j)
                       (case map_of (face_tracking self) f of
                          Some tr \<Rightarrow> tr | None \<Rightarrow> new_face t (dets ! j))))
      \<and> (\<forall>k tr. map_of (face_tracking self) k = Some tr \<longrightarrow>
            map_of (face_tracking s2) k =
              Some (fold (seen_by t dt) (filter (\<lambda>d. face_id d = Some k) out) tr))
      \<and> (\<forall>k e. map_of (face_tracking s2) k = Some e \<longrightarrow>
            (\<exists>tr ds. e = fold (seen_by t dt) ds tr
               \<and> (map_of (face_tracking self) k = Some tr \<or> (\<exists>cur. tr = new_face t cur))))"
proof -
  from greedy_on_distances [of dets self]
  obtain asg where g: "greedy_assignment dets (compute_distances self dets) = Inr asg"
    and d2: "distinct (map snd asg)"
    and rng: "\<forall>(i, f) \<in> set asg. i < length dets \<and> f \<in> fst ` set (face_tracking self)"
    by blast
  let ?xs = "enumerate 0 dets"
  let ?unm = "\<lambda>p :: nat \<times> detection. map_of asg (fst p) = None"
  let ?U = "filter ?unm ?xs"
  let ?n = "next_face_id self"
  obtain s1 out where a: "assign_ids_loop asg t self ?xs = (s1, out)"
    by (cases "assign_ids_loop asg t self ?xs")
  note spec = assign_ids_loop_spec [OF a below]
  from spec have n1: "next_face_id s1 = ?n + length ?U" by simp
  let ?vs = "map (\<lambda>p. new_face t (snd p)) ?U"
  from spec have tr1: "face_tracking s1 = face_tracking self @ zip [?n ..< next_face_id s1] ?vs"
    by simp
  from spec have h1: "face_history s1 = face_history self" by simp
  from spec have len: "length out = length dets" by simp
  have lenvs: "length [?n ..< next_face_id s1] = length ?vs" by (simp add: n1)
  define idf where "idf j = (case map_of asg j of
                    Some f \<Rightarrow> f
                  | None \<Rightarrow> ?n + length (filter ?unm (take j ?xs)))" for j
  have xsj: "?xs ! j = (j, dets ! j)" if "j < length dets" for j
    using that by (simp add: nth_enumerate_eq)
  have outj: "out ! j = (dets ! j)\<lparr>face_id := Some (idf j)\<rparr>" if "j < length dets" for j
  proof -
    from that have "j < length ?xs" by simp
    with spec have "out ! j = (snd (?xs ! j))\<lparr>face_id :=
            Some (case map_of asg (fst (?xs ! j)) of
                    Some f \<Rightarrow> f
                  | None \<Rightarrow> ?n + length (filter ?unm (take j ?xs)))\<rparr>"
      by blast
    then show ?thesis by (simp add: xsj [OF that] idf_def)
  qed
  have matched: "f \<in> fst ` set (face_tracking self) \<and> f < ?n \<and> idf j = f"
    if "map_of asg j = Some f" for j f
  proof -
    from that have "(j, f) \<in> set asg" by (rule map_of_SomeD)
    with rng have "f \<in> fst ` set (face_tracking self)" by auto
    with below that show ?thesis by (auto simp: idf_def)
  qed
  have unmatched: "?n \<le> idf j \<and> idf j < next_face_id s1 \<and> ?U ! (idf j - ?n) = (j, dets ! j)
                   \<and> idf j = ?n + length (filter ?unm (take j ?xs))"
    if "map_of asg j = None" and "j < length dets" for j
  proof -
    from that have jl: "j < length ?xs" and p: "?unm (?xs ! j)" by (simp_all add: xsj)
    from filter_take_count [of j ?xs ?unm, OF jl p] that
    show ?thesis by (simp add: idf_def n1 xsj)
  qed
  have inj: "idf j \<noteq> idf j'" if "j < j'" and "j' < length dets" for j j'
  proof (cases "map_of asg j")
    case None
    with that have u: "?n \<le> idf j" "idf j = ?n + length (filter ?unm (take j ?xs))"
      using unmatched [of j] by simp_all
    show ?thesis
    proof (cases "map_of asg j'")
      case None': None
      from that None have "length (filter ?unm (take j ?xs)) < length (filter ?unm (take j' ?xs))"
        by (intro filter_take_count_mono) (simp_all add: xsj)
      with u unmatched [OF None' that(2)] show ?thesis by simp
    next
      case (Some f')
      from matched [OF this] u show ?thesis by simp
    qed
  next
    case (Some f)
    note m = matched [OF this]
    show ?thesis
    proof (cases "map_of asg j'")
      case None
      from unmatched [OF this that(2)] m show ?thesis by simp
    next
      case Some': (Some f')
      show ?thesis
      proof
        assume "idf j = idf j'"
        with m matched [OF Some'] have "f = f'" by simp
        with Some Some' have "(j, f) \<in> set asg" "(j', f) \<in> set asg"
          by (auto dest: map_of_SomeD)
        from distinct_snd_inj [OF d2 this] that(1) show False by simp
      qed
    qed
  qed
  have dist_out: "distinct (map face_id out)"
    unfolding distinct_conv_nth
  proof (intro allI impI)
    fix i j assume i: "i < length (map face_id out)" and j: "j < length (map face_id out)"
      and ne: "i \<noteq> j"
    from i j len have il: "i < length dets" and jl: "j < length dets" by simp_all
    from ne consider "i < j" | "j < i" by linarith
    then have "idf i \<noteq> idf j"
    proof cases
      case 1
      then show ?thesis using inj jl by blast
    next
      case 2
      then show ?thesis using inj il by metis
    qed
    with il jl len show "map face_id out ! i \<noteq> map face_id out ! j"
      by (simp add: outj)
  qed
  have keys1: "map fst (face_tracking s1) = map fst (face_tracking self) @ [?n ..< next_face_id s1]"
    unfolding tr1 using lenvs by simp
  have lookup1_old: "map_of (face_tracking s1) k = map_of (face_tracking self) k"
    if "k < ?n" for k
  proof -
    from that have "k \<notin> set [?n ..< next_face_id s1]" by simp
    then have "map_of (zip [?n ..< next_face_id s1] ?vs) k = None"
      by (metis (no_types, lifting) lenvs map_fst_zip map_of_eq_None_iff set_map)
    then show ?thesis unfolding tr1 by (simp add: map_add_def split: option.split)
  qed
  have lookup1_new: "map_of (face_tracking s1) (idf j) = Some (new_face t (dets ! j))
                     \<and> map_of (face_tracking self) (idf j) = None"
    if "map_of asg j = None" and "j < length dets" for j
  proof -
    note u = unmatched [OF that]
    let ?m = "idf j - ?n"
    from u have m: "?m < length ?vs" by (simp add: n1)
    have "map_of (zip [?n ..< next_face_id s1] ?vs) ([?n ..< next_face_id s1] ! ?m) = Some (?vs ! ?m)"
      using lenvs m by (intro map_of_zip_nth) simp_all
    moreover have "[?n ..< next_face_id s1] ! ?m = idf j" using u by simp
    moreover have "?vs ! ?m = new_face t (dets ! j)"
    proof -
      from u have um: "?U ! ?m = (j, dets ! j)" by blast
      from m have "?vs ! ?m = new_face t (snd (?U ! ?m))" by simp
      then show ?thesis by (simp only: um snd_conv)
    qed
    ultimately have z: "map_of (zip [?n ..< next_face_id s1] ?vs) (idf j) = Some (new_face t (dets ! j))"
      by simp
    have "idf j \<notin> fst ` set (face_tracking self)" using below u by auto
    then have none: "map_of (face_tracking self) (idf j) = None" by (simp add: map_of_eq_None_iff)
    from z none show ?thesis unfolding tr1 by (simp add: map_add_def)
  qed
  have ids_in: "\<forall>d \<in> set out. \<exists>f. face_id d = Some f \<and> f \<in> fst ` set (face_tracking s1)"
  proof
    fix d assume "d \<in> set out"
    then obtain j where j: "j < length dets" and d: "d = out ! j"
      using len by (metis in_set_conv_nth)
    have "idf j \<in> set (map fst (face_tracking s1))"
    proof (cases "map_of asg j")
      case None
      from unmatched [OF None j] show ?thesis unfolding keys1 by simp
    next
      case (Some f)
      from matched [OF Some] show ?thesis unfolding keys1 by auto
    qed
    then show "\<exists>f. face_id d = Some f \<and> f \<in> fst ` set (face_tracking s1)"
      by (simp add: d outj [OF j])
  qed
  from update_tracking_spec [OF ids_in, of t dt]
  obtain s2 where u: "update_tracking s1 out t dt = Inr s2"
    and h2: "face_history s2 = face_history s1"
    and n2: "next_face_id s2 = next_face_id s1"
    and k2: "map fst (face_tracking s2) = map fst (face_tracking s1)"
    and m2: "\<And>k. map_of (face_tracking s2) k =
                  map_option (fold (seen_by t dt) (filter (\<lambda>d. face_id d = Some k) out))
                    (map_of (face_tracking s1) k)"
    by blast
  have upd: "update cfg self dets t dt = Inr (cleanup_stale cfg s2 t, out)"
    by (simp add: update_def Let_def g assign_ids_def a u)
  have per_det: "\<exists>f. out ! j = (dets ! j)\<lparr>face_id := Some f\<rparr>
            \<and> map_of (face_tracking s2) f =
                Some (seen_by t dt (dets ! j)
                       (case map_of (face_tracking self) f of
                          Some tr \<Rightarrow> tr | None \<Rightarrow> new_face t (dets ! j)))"
    if j: "j < length dets" for j
  proof -
    from j len have jo: "j < length out" by simp
    have fo: "face_id (out ! j) = Some (idf j)" by (simp add: outj [OF j])
    from filter_distinct_key [OF dist_out jo]
    have flt: "filter (\<lambda>d. face_id d = Some (idf j)) out = [out ! j]" by (simp add: fo)
    have c: "seen_by t dt (out ! j) = seen_by t dt (dets ! j)"
      by (rule seen_by_center_only) (simp add: outj [OF j])
    have "map_of (face_tracking s2) (idf j) =
            map_option (seen_by t dt (dets ! j)) (map_of (face_tracking s1) (idf j))"
      by (simp add: m2 flt c)
    moreover have "map_of (face_tracking s1) (idf j) =
             Some (case map_of (face_tracking self) (idf j) of
                          Some tr \<Rightarrow> tr | None \<Rightarrow> new_face t (dets ! j))"
    proof (cases "map_of asg j")
      case None
      from lookup1_new [OF None j] show ?thesis by simp
    next
      case (Some f)
      note m = matched [OF Some]
      from m obtain tr where "map_of (face_tracking self) f = Some tr"
        by (metis map_of_eq_None_iff not_Some_eq)
      with m lookup1_old [of f] show ?thesis by simp
    qed
    ultimately show ?thesis using outj [OF j] by auto
  qed
  have existing: "map_of (face_tracking s2) k =
              Some (fold (seen_by t dt) (filter (\<lambda>d. face_id d = Some k) out) tr)"
    if "map_of (face_tracking self) k = Some tr" for k tr
  proof -
    from that have "k \<in> fst ` set (face_tracking self)"
      by (metis map_of_eq_None_iff option.distinct(1))
    with below have "k < ?n" by auto
    from lookup1_old [OF this] that show ?thesis by (simp add: m2)
  qed
  have origin: "\<exists>tr ds. e = fold (seen_by t dt) ds tr
               \<and> (map_of (face_tracking self) k = Some tr \<or> (\<exists>cur. tr = new_face t cur))"
    if "map_of (face_tracking s2) k = Some e" for k e
  proof -
    from that m2 [of k] obtain tr where t1: "map_of (face_tracking s1) k = Some tr"
      and e: "e = fold (seen_by t dt) (filter (\<lambda>d. face_id d = Some k) out) tr"
      by (cases "map_of (face_tracking s1) k") auto
    have "map_of (face_tracking self) k = Some tr \<or> (\<exists>cur. tr = new_face t cur)"
    proof (cases "map_of (face_tracking self) k")
      case (Some tr0)
      then have "k \<in> fst ` set (face_tracking self)"
        by (metis map_of_eq_None_iff option.distinct(1))
      with below have "k < ?n" by auto
      from lookup1_old [OF this] t1 Some show ?thesis by simp
    next
      case None
      with t1 have "map_of (zip [?n ..< next_face_id s1] ?vs) k = Some tr"
        unfolding tr1 by (simp add: map_add_def split: option.splits)
      then have "(k, tr) \<in> set (zip [?n ..< next_face_id s1] ?vs)" by (rule map_of_SomeD)
      then have "tr \<in> set ?vs" by (rule set_zip_rightD)
      then show ?thesis by auto
    qed
    with e show ?thesis by blast
  qed
  show ?thesis
    using g a u upd h1 h2 n1 n2 k2 keys1 len dist_out per_det existing origin
    unfolding assign_ids_def
    by (intro exI [of _ asg] exI [of _ s1] exI [of _ s2] exI [of _ out]) simp
qed











section \<open>The SCRFD loop\<close>

lemma process_face_skip:
  "\<not> is_facing_camera (kps f) \<or> crop_size f = 0 \<Longrightarrow> process_face t el dt s f = (None, s)"
  by (auto simp: process_face_def)

lemma process_face_on_cadence:
  assumes "is_facing_camera (kps f)" and "crop_size f \<noteq> 0"
    and "frame_count s mod 10 = 0"
    and "get_id (memory s) (arcface_emb f) = Inr (k, m)"
  shows "process_face t el dt s f =
           (None,
            s\<lparr>memory := m, fid_var := Some k,
              face_tracking :=
                 AList.update k
                   (visit_seen t el dt
                      (case map_of (face_tracking s) k of None \<Rightarrow> new_visit t el | Some v \<Rightarrow> v))
                   (face_tracking s)\<rparr>)"
  unfolding process_face_def visit_seen_def new_visit_def Let_def using assms
  by (auto split: option.splits)

lemma process_face_off_cadence:
  assumes "is_facing_camera (kps f)" and "crop_size f \<noteq> 0"
    and "frame_count s mod 10 \<noteq> 0"
    and "fid_var s = Some k"
  shows "process_face t el dt s f =
           (None,
            s\<lparr>face_tracking :=
                 AList.update k
                   (visit_seen t el dt
                      (case map_of (face_tracking s) k of None \<Rightarrow> new_visit t el | Some v \<Rightarrow> v))
                   (face_tracking s)\<rparr>)"
  unfolding process_face_def visit_seen_def new_visit_def Let_def using assms
  by (auto split: option.splits)

lemma process_face_unbound:
  assumes "is_facing_camera (kps f)" and "crop_size f \<noteq> 0"
    and "frame_count s mod 10 \<noteq> 0"
    and "fid_var s = None"
  shows "process_face t el dt s f = (Some NameError, s)"
  unfolding process_face_def using assms by simp

lemma process_face_frontal:
  assumes "is_facing_camera (kps f)" and "crop_size f \<noteq> 0"
  shows "process_face t el dt s f =
           (if frame_count s mod 10 = 0
            then (case get_id (memory s) (arcface_emb f) of
                    Inl e \<Rightarrow> (Some e, s)
                  | Inr (k, m) \<Rightarrow>
                      (None,
                       s\<lparr>memory := m, fid_var := Some k,
                         face_tracking :=
                           AList.update k
                             (visit_seen t el dt
                                (case map_of (face_tracking s) k of
                                   None \<Rightarrow> new_visit t el | Some v \<Rightarrow> v))
                             (face_tracking s)\<rparr>))
            else (case fid_var s of
                    None \<Rightarrow> (Some NameError, s)
                  | Some k \<Rightarrow>
                      (None,
                       s\<lparr>face_tracking :=
                           AList.update k
                             (visit_seen t el dt
                                (case map_of (face_tracking s) k of
                                   None \<Rightarrow> new_visit t el | Some v \<Rightarrow> v))
                             (face_tracking s)\<rparr>)))"
  unfolding process_face_def visit_seen_def new_visit_def Let_def using assms
  by (auto split: option.splits sum.splits)

lemma process_face_tables:
  assumes "process_face t el dt s f = (err, s')"
  shows "face_history s' = face_history s
         \<and> prev_time s' = prev_time s \<and> frame_count s' = frame_count s
         \<and> campaign_start_time s' = campaign_start_time s
         \<and> timeline s' = timeline s \<and> time_axis s' = time_axis s
         \<and> (face_tracking s' = face_tracking s
              \<or> (\<exists>k. face_tracking s' =
                     AList.update k
                       (visit_seen t el dt
                          (case map_of (face_tracking s) k of
                             None \<Rightarrow> new_visit t el | Some v \<Rightarrow> v))
                       (face_tracking s)))"
proof (cases "\<not> is_facing_camera (kps f) \<or> crop_size f = 0")
  case True
  from process_face_skip [OF this] assms show ?thesis by simp
next
  case False
  then have fc: "is_facing_camera (kps f)" and cs: "crop_size f \<noteq> 0" by auto
  define r where "r = (if frame_count s mod 10 = 0
               then (case get_id (memory s) (arcface_emb f) of
                       Inl e \<Rightarrow> Inl e
                     | Inr (fid, m) \<Rightarrow> Inr (s\<lparr>memory := m, fid_var := Some fid\<rparr>))
               else Inr s)"
  have pf: "process_face t el dt s f =
        (case r of
           Inl e \<Rightarrow> (Some e, s)
         | Inr s1 \<Rightarrow>
             (case fid_var s1 of
                None \<Rightarrow> (Some NameError, s1)
              | Some fid \<Rightarrow>
                  (None,
                       s1\<lparr>face_tracking :=
                            AList.update fid
                              (visit_seen t el dt
                                 (case map_of (face_tracking s1) fid of
                                    None \<Rightarrow> new_visit t el | Some v \<Rightarrow> v))
                              (face_tracking s1)\<rparr>)))"
    unfolding process_face_def r_def visit_seen_def new_visit_def Let_def using fc cs by simp
  show ?thesis
  proof (cases r)
    case (Inl e)
    with pf assms show ?thesis by simp
  next
    case (Inr s1)
    have same: "face_tracking s1 = face_tracking s \<and> face_history s1 = face_history s
                \<and> prev_time s1 = prev_time s \<and> frame_count s1 = frame_count s
                \<and> campaign_start_time s1 = campaign_start_time s
                \<and> timeline s1 = timeline s \<and> time_axis s1 = time_axis s"
      using Inr unfolding r_def by (auto split: if_splits sum.splits)
    show ?thesis
    proof (cases "fid_var s1")
      case None
      with pf Inr assms same show ?thesis by simp
    next
      case (Some k)
      with pf Inr assms have "s' = s1\<lparr>face_tracking :=
                            AList.update k
                              (visit_seen t el dt
                                 (case map_of (face_tracking s1) k of
                                    None \<Rightarrow> new_visit t el | Some v \<Rightarrow> v))
                              (face_tracking s1)\<rparr>"
        by simp
      with same show ?thesis by auto
    qed
  qed
qed


lemma process_faces_tables:
  assumes "process_faces t el dt s fs = (err, s')"
  shows "face_history s' = face_history s
         \<and> prev_time s' = prev_time s \<and> frame_count s' = frame_count s
         \<and> campaign_start_time s' = campaign_start_time s
         \<and> timeline s' = timeline s \<and> time_axis s' = time_axis s"
  using assms
proof (induction fs arbitrary: s)
  case Nil
  then show ?case by simp
next
  case (Cons f fs)
  obtain e1 s1 where p: "process_face t el dt s f = (e1, s1)"
    by (cases "process_face t el dt s f")
  note t1 = process_face_tables [OF p]
  show ?case
  proof (cases e1)
    case None
    with Cons.prems p have "process_faces t el dt s1 fs = (err, s')" by simp
    from Cons.IH [OF this] t1 show ?thesis by simp
  next
    case (Some e)
    with Cons.prems p have "s' = s1" by simp
    with t1 show ?thesis by simp
  qed
qed















lemma front_a_facing: "is_facing_camera (kps front_a)"
  by (simp add: front_a_def frontal_face_def is_facing_camera_def yaw_ratio_def
      pitch_ratio_def np_div_def Let_def)

lemma front_a_crop: "crop_size front_a \<noteq> 0" "arcface_emb front_a = [1, 0]"
  by (simp_all add: front_a_def)




section \<open>Eviction on a frame with detections\<close>

lemma update_unreferenced:
  assumes d: "distinct (map fst (face_tracking self))"
    and below: "\<forall>k \<in> fst ` set (face_tracking self). k < next_face_id self"
    and e: "map_of (face_tracking self) fid = Some e"
  shows "\<exists>self' out. update cfg self dets now dt = Inr (self', out)
           \<and> (Some fid \<notin> face_id ` set out \<longrightarrow>
                map_of (face_tracking self') fid
                  = (if now - last_seen e > STALE_FACE_TIMEOUT cfg then None else Some e)
                \<and> map_of (face_history self') fid
                  = (if now - last_seen e > STALE_FACE_TIMEOUT cfg then Some e
                     else map_of (face_history self) fid))"
proof -
  from update_frame [OF below, of dets now dt cfg]
  obtain s2 out where u: "update cfg self dets now dt = Inr (cleanup_stale cfg s2 now, out)"
    and h: "face_history s2 = face_history self"
    and keys: "map fst (face_tracking s2)
          = map fst (face_tracking self) @ [next_face_id self ..< next_face_id s2]"
    and old: "\<forall>k tr. map_of (face_tracking self) k = Some tr \<longrightarrow>
            map_of (face_tracking s2) k =
              Some (fold (seen_by now dt) (filter (\<lambda>d. face_id d = Some k) out) tr)"
    by blast
  from below have "set (map fst (face_tracking self)) \<inter> set [next_face_id self ..< next_face_id s2] = {}"
    by auto
  with d have d2: "distinct (map fst (face_tracking s2))"
    unfolding keys by simp
  have "map_of (face_tracking (cleanup_stale cfg s2 now)) fid
                  = (if now - last_seen e > STALE_FACE_TIMEOUT cfg then None else Some e)
                \<and> map_of (face_history (cleanup_stale cfg s2 now)) fid
                  = (if now - last_seen e > STALE_FACE_TIMEOUT cfg then Some e
                     else map_of (face_history self) fid)"
    if n: "Some fid \<notin> face_id ` set out"
  proof -
    have "filter (\<lambda>d. face_id d = Some fid) out = []"
      unfolding filter_empty_conv
    proof
      fix x assume x: "x \<in> set out"
      show "face_id x \<noteq> Some fid"
      proof
        assume "face_id x = Some fid"
        with x have "Some fid \<in> face_id ` set out" by (metis imageI)
        with n show False by simp
      qed
    qed
    with old e have e2: "map_of (face_tracking s2) fid = Some e" by simp
    from evict_lookup [OF d2 e2, of cfg now, folded cleanup_stale_def] h
    show ?thesis by simp
  qed
  with u show ?thesis by blast
qed

lemma process_face_entry:
  assumes "process_face t el dt s f = (err, s')"
  shows "(distinct (map fst (face_tracking s)) \<longrightarrow> distinct (map fst (face_tracking s')))
         \<and> (map_of (face_tracking s') k = map_of (face_tracking s) k
              \<or> (\<exists>v'. map_of (face_tracking s') k = Some v' \<and> last_seen v' = t))"
proof -
  from process_face_tables [OF assms]
  have "face_tracking s' = face_tracking s
              \<or> (\<exists>k. face_tracking s' =
                     AList.update k
                       (visit_seen t el dt
                          (case map_of (face_tracking s) k of
                             None \<Rightarrow> new_visit t el | Some v \<Rightarrow> v))
                       (face_tracking s))"
    by simp
  then show ?thesis
  proof
    assume "face_tracking s' = face_tracking s"
    then show ?thesis by simp
  next
    assume "\<exists>k. face_tracking s' =
                     AList.update k
                       (visit_seen t el dt
                          (case map_of (face_tracking s) k of
                             None \<Rightarrow> new_visit t el | Some v \<Rightarrow> v))
                       (face_tracking s)"
    then obtain k' v0 where u: "face_tracking s' = AList.update k' (visit_seen t el dt v0) (face_tracking s)"
      by blast
    have l: "last_seen (visit_seen t el dt v0) = t" by (simp add: visit_seen_def)
    have dd: "distinct (map fst (face_tracking s)) \<longrightarrow> distinct (map fst (face_tracking s'))"
      unfolding u by (simp add: AList.distinct_update)
    have "map_of (face_tracking s') k = map_of (face_tracking s) k
              \<or> (\<exists>v'. map_of (face_tracking s') k = Some v' \<and> last_seen v' = t)"
      unfolding u using l by (cases "k = k'") (simp_all add: AList.update_conv')
    with dd show ?thesis by simp
  qed
qed

lemma process_faces_entry:
  assumes "process_faces t el dt s fs = (err, s')"
  shows "(distinct (map fst (face_tracking s)) \<longrightarrow> distinct (map fst (face_tracking s')))
         \<and> (map_of (face_tracking s') k = map_of (face_tracking s) k
              \<or> (\<exists>v'. map_of (face_tracking s') k = Some v' \<and> last_seen v' = t))"
  using assms
proof (induction fs arbitrary: s)
  case Nil
  then show ?case by simp
next
  case (Cons f fs)
  obtain e1 s1 where p: "process_face t el dt s f = (e1, s1)"
    by (cases "process_face t el dt s f")
  from process_face_entry [OF p, of k]
  have d1: "distinct (map fst (face_tracking s)) \<longrightarrow> distinct (map fst (face_tracking s1))"
    and m1: "map_of (face_tracking s1) k = map_of (face_tracking s) k
              \<or> (\<exists>v'. map_of (face_tracking s1) k = Some v' \<and> last_seen v' = t)"
    by simp_all
  show ?case
  proof (cases e1)
    case None
    with Cons.prems p have "process_faces t el dt s1 fs = (err, s')" by simp
    from Cons.IH [OF this]
    have d2: "distinct (map fst (face_tracking s1)) \<longrightarrow> distinct (map fst (face_tracking s'))"
      and m2: "map_of (face_tracking s') k = map_of (face_tracking s1) k
              \<or> (\<exists>v'. map_of (face_tracking s') k = Some v' \<and> last_seen v' = t)"
      by simp_all
    from d1 d2 have "distinct (map fst (face_tracking s)) \<longrightarrow> distinct (map fst (face_tracking s'))"
      by simp
    moreover from m1 m2 have "map_of (face_tracking s') k = map_of (face_tracking s) k
              \<or> (\<exists>v'. map_of (face_tracking s') k = Some v' \<and> last_seen v' = t)"
      by metis
    ultimately show ?thesis by simp
  next
    case (Some e)
    with Cons.prems p have "s' = s1" by simp
    with d1 m1 show ?thesis by simp
  qed
qed

lemma process_faces_all_skipped:
  "\<forall>f \<in> set fs. \<not> is_facing_camera (kps f) \<or> crop_size f = 0 \<Longrightarrow>
   process_faces t el dt s fs = (None, s)"
  by (induction fs) (simp_all add: process_face_skip)

lemma main_frame_faces_step:
  "main_frame cfg s fr =
     (case faces_step s fr of
        (Some e, s2) \<Rightarrow> (Some e, s2)
      | (None, s2) \<Rightarrow>
          (let s3 = move_stale (stale cfg (time_now fr) (face_tracking s2)) s2
           in (None,
               s3\<lparr>timeline := timeline s3 @ [length (face_tracking s3)],
                  time_axis := time_axis s3 @ [time_now fr - campaign_start_time s],
                  frame_count := frame_count s3 + 1\<rparr>)))"
  by (simp add: main_frame_def faces_step_def frame_dt_def Let_def)

lemma main_frame_eviction:
  assumes p: "faces_step s fr = (None, s2)"
    and d: "distinct (map fst (face_tracking s))"
    and e: "map_of (face_tracking s2) k = Some v"
  shows "fst (main_frame cfg s fr) = None"
    and "map_of (face_tracking (snd (main_frame cfg s fr))) k
           = (if time_now fr - last_seen v > STALE_FACE_TIMEOUT cfg then None else Some v)"
    and "map_of (face_history (snd (main_frame cfg s fr))) k
           = (if time_now fr - last_seen v > STALE_FACE_TIMEOUT cfg then Some v
              else map_of (face_history s) k)"
proof -
  from p have pf: "process_faces (time_now fr) (time_now fr - campaign_start_time s) (frame_dt s fr)
       (s\<lparr>prev_time := time_now fr\<rparr>) (detected fr) = (None, s2)"
    by (simp add: faces_step_def)
  from process_faces_entry [OF pf] d have d2: "distinct (map fst (face_tracking s2))" by simp
  from process_faces_tables [OF pf] have h2: "face_history s2 = face_history s" by simp
  note ev = evict_lookup [OF d2 e, of cfg "time_now fr"]
  show "fst (main_frame cfg s fr) = None"
    by (simp add: main_frame_faces_step p Let_def)
  show "map_of (face_tracking (snd (main_frame cfg s fr))) k
           = (if time_now fr - last_seen v > STALE_FACE_TIMEOUT cfg then None else Some v)"
    by (simp add: main_frame_faces_step p Let_def ev)
  show "map_of (face_history (snd (main_frame cfg s fr))) k
           = (if time_now fr - last_seen v > STALE_FACE_TIMEOUT cfg then Some v
              else map_of (face_history s) k)"
    by (simp add: main_frame_faces_step p Let_def ev h2)
qed

lemma front_b_facing: "is_facing_camera (kps front_b)"
  by (simp add: front_b_def frontal_face_b_def is_facing_camera_def yaw_ratio_def pitch_ratio_def
      np_div_def Let_def)

lemma front_b_crop: "crop_size front_b \<noteq> 0" "arcface_emb front_b = [0, 1]"
  by (simp_all add: front_b_def)

lemma side_a_turned: "\<not> is_facing_camera (kps side_a)"
  by (simp add: side_a_def turned_face_def is_facing_camera_def yaw_ratio_def pitch_ratio_def
      np_div_def Let_def)

text \<open>
  Claim C8.  An entry of the active table was last seen at \<open>t0\<close>, \<open>T\<close> is the configured
  timeout and \<open>eps\<close> is positive.  Eviction at \<open>t0 + T - eps\<close> keeps the entry in the active
  table and stores nothing under its id in the history; eviction at \<open>t0 + T + eps\<close> removes
  it from the active table and stores the same entry, every field as it was, in the history.

  For \<^verbatim>\<open>FaceTracker\<close> this holds of \<^verbatim>\<open>_cleanup_stale\<close> itself and of \<^verbatim>\<open>update\<close> on any list
  of detections, in a tracker whose active ids are below \<^verbatim>\<open>next_face_id\<close> (as they are after
  any calls of \<^verbatim>\<open>update\<close>): the call raises nothing, and when none of the detections it
  returns carries the id of the entry, the entry is kept, or moved, as said.

  For the SCRFD loop this holds of an iteration on any frame: after the loop over the faces
  of the frame the entry is either as it was or has just been seen, at the time of the
  frame; when it is as it was, the iteration raises nothing and keeps or moves the entry as
  said.  A frame all of whose faces are skipped, turned away or with an empty crop, leaves
  every entry as it was.
\<close>

theorem stale_eviction_boundary:
  fixes self :: FaceTracker and s :: main_state
  assumes "0 < eps"
  shows "(distinct (map fst (face_tracking self)) \<and> map_of (face_tracking self) fid = Some e
            \<and> last_seen e = t0 \<longrightarrow>
          map_of (face_tracking (cleanup_stale cfg self (t0 + STALE_FACE_TIMEOUT cfg - eps))) fid
            = Some e
          \<and> map_of (face_history (cleanup_stale cfg self (t0 + STALE_FACE_TIMEOUT cfg - eps))) fid
            = map_of (face_history self) fid
          \<and> map_of (face_tracking (cleanup_stale cfg self (t0 + STALE_FACE_TIMEOUT cfg + eps))) fid
            = None
          \<and> map_of (face_history (cleanup_stale cfg self (t0 + STALE_FACE_TIMEOUT cfg + eps))) fid
            = Some e
          \<and> ((\<forall>j \<in> fst ` set (face_tracking self). j < next_face_id self) \<longrightarrow>
               (\<exists>self' out.
                   update cfg self dets (t0 + STALE_FACE_TIMEOUT cfg - eps) dt = Inr (self', out)
                   \<and> (Some fid \<notin> face_id ` set out \<longrightarrow>
                        map_of (face_tracking self') fid = Some e
                        \<and> map_of (face_history self') fid = map_of (face_history self) fid))
               \<and> (\<exists>self' out.
                   update cfg self dets (t0 + STALE_FACE_TIMEOUT cfg + eps) dt = Inr (self', out)
                   \<and> (Some fid \<notin> face_id ` set out \<longrightarrow>
                        map_of (face_tracking self') fid = None
                        \<and> map_of (face_history self') fid = Some e))))
       \<and> (distinct (map fst (face_tracking s)) \<and> map_of (face_tracking s) k = Some v
            \<and> last_seen v = t0 \<and> faces_step s fr = (None, s2) \<longrightarrow>
          (map_of (face_tracking s2) k = Some v
             \<or> (\<exists>v'. map_of (face_tracking s2) k = Some v' \<and> last_seen v' = time_now fr))
          \<and> (map_of (face_tracking s2) k = Some v \<longrightarrow>
                fst (main_frame cfg s fr) = None
                \<and> (time_now fr = t0 + STALE_FACE_TIMEOUT cfg - eps \<longrightarrow>
                      map_of (face_tracking (snd (main_frame cfg s fr))) k = Some v
                      \<and> map_of (face_history (snd (main_frame cfg s fr))) k
                          = map_of (face_history s) k)
                \<and> (time_now fr = t0 + STALE_FACE_TIMEOUT cfg + eps \<longrightarrow>
                      map_of (face_tracking (snd (main_frame cfg s fr))) k = None
                      \<and> map_of (face_history (snd (main_frame cfg s fr))) k = Some v)))
       \<and> ((\<forall>f \<in> set (detected fr). \<not> is_facing_camera (kps f) \<or> crop_size f = 0) \<longrightarrow>
            faces_step s fr = (None, s\<lparr>prev_time := time_now fr\<rparr>))"
proof (intro conjI impI)
  assume a: "distinct (map fst (face_tracking self)) \<and> map_of (face_tracking self) fid = Some e
            \<and> last_seen e = t0"
  then have d: "distinct (map fst (face_tracking self))"
    and l: "map_of (face_tracking self) fid = Some e" and t: "last_seen e = t0" by auto
  note ev = evict_lookup [OF d l, of cfg, folded cleanup_stale_def]
  show "map_of (face_tracking (cleanup_stale cfg self (t0 + STALE_FACE_TIMEOUT cfg - eps))) fid
            = Some e"
    using assms by (simp add: ev t)
  show "map_of (face_history (cleanup_stale cfg self (t0 + STALE_FACE_TIMEOUT cfg - eps))) fid
            = map_of (face_history self) fid"
    using assms by (simp add: ev t)
  show "map_of (face_tracking (cleanup_stale cfg self (t0 + STALE_FACE_TIMEOUT cfg + eps))) fid
            = None"
    using assms by (simp add: ev t)
  show "map_of (face_history (cleanup_stale cfg self (t0 + STALE_FACE_TIMEOUT cfg + eps))) fid
            = Some e"
    using assms by (simp add: ev t)
  assume below: "\<forall>j \<in> fst ` set (face_tracking self). j < next_face_id self"
  note un = update_unreferenced [OF d below l, of cfg dets _ dt]
  from un [of "t0 + STALE_FACE_TIMEOUT cfg - eps"] assms
  show "\<exists>self' out.
          update cfg self dets (t0 + STALE_FACE_TIMEOUT cfg - eps) dt = Inr (self', out)
          \<and> (Some fid \<notin> face_id ` set out \<longrightarrow>
               map_of (face_tracking self') fid = Some e
               \<and> map_of (face_history self') fid = map_of (face_history self) fid)"
    by (simp add: t)
  from un [of "t0 + STALE_FACE_TIMEOUT cfg + eps"] assms
  show "\<exists>self' out.
          update cfg self dets (t0 + STALE_FACE_TIMEOUT cfg + eps) dt = Inr (self', out)
          \<and> (Some fid \<notin> face_id ` set out \<longrightarrow>
               map_of (face_tracking self') fid = None
               \<and> map_of (face_history self') fid = Some e)"
    by (simp add: t)
next
  assume a: "distinct (map fst (face_tracking s)) \<and> map_of (face_tracking s) k = Some v
            \<and> last_seen v = t0 \<and> faces_step s fr = (None, s2)"
  then have l: "map_of (face_tracking s) k = Some v"
    and p: "faces_step s fr = (None, s2)" by auto
  from p have "process_faces (time_now fr) (time_now fr - campaign_start_time s) (frame_dt s fr)
       (s\<lparr>prev_time := time_now fr\<rparr>) (detected fr) = (None, s2)"
    by (simp add: faces_step_def)
  from process_faces_entry [OF this, of k] l
  show "map_of (face_tracking s2) k = Some v
             \<or> (\<exists>v'. map_of (face_tracking s2) k = Some v' \<and> last_seen v' = time_now fr)"
    by simp
next
  assume a: "distinct (map fst (face_tracking s)) \<and> map_of (face_tracking s) k = Some v
            \<and> last_seen v = t0 \<and> faces_step s fr = (None, s2)"
    and e2: "map_of (face_tracking s2) k = Some v"
  then have d: "distinct (map fst (face_tracking s))" and t: "last_seen v = t0"
    and p: "faces_step s fr = (None, s2)" by auto
  note mf = main_frame_eviction [OF p d e2, of cfg]
  show "fst (main_frame cfg s fr) = None" by (rule mf(1))
  {
    assume n: "time_now fr = t0 + STALE_FACE_TIMEOUT cfg - eps"
    show "map_of (face_tracking (snd (main_frame cfg s fr))) k = Some v"
      using assms by (simp add: mf(2) t n)
    show "map_of (face_history (snd (main_frame cfg s fr))) k = map_of (face_history s) k"
      using assms by (simp add: mf(3) t n)
  }
  {
    assume n: "time_now fr = t0 + STALE_FACE_TIMEOUT cfg + eps"
    show "map_of (face_tracking (snd (main_frame cfg s fr))) k = None"
      using assms by (simp add: mf(2) t n)
    show "map_of (face_history (snd (main_frame cfg s fr))) k = Some v"
      using assms by (simp add: mf(3) t n)
  }
next
  assume "\<forall>f \<in> set (detected fr). \<not> is_facing_camera (kps f) \<or> crop_size f = 0"
  then show "faces_step s fr = (None, s\<lparr>prev_time := time_now fr\<rparr>)"
    unfolding faces_step_def by (rule process_faces_all_skipped)
qed

theorem stale_eviction_boundary_witness:
  "map_of (face_tracking (cleanup_stale config_py one_face_tracker (205 / 2))) 1 = Some seen_at_100
   \<and> map_of (face_history (cleanup_stale config_py one_face_tracker (205 / 2))) 1 = None
   \<and> map_of (face_tracking (cleanup_stale config_py one_face_tracker (207 / 2))) 1 = None
   \<and> map_of (face_history (cleanup_stale config_py one_face_tracker (207 / 2))) 1 = Some seen_at_100
   \<and> (\<exists>self'. update config_py one_face_tracker [far_detection] (205 / 2) (1 / 2)
                 = Inr (self', [far_detection\<lparr>face_id := Some 2\<rparr>])
          \<and> map_of (face_tracking self') 1 = Some seen_at_100
          \<and> map_of (face_history self') 1 = None)
   \<and> (\<exists>self'. update config_py one_face_tracker [far_detection] (207 / 2) (1 / 2)
                 = Inr (self', [far_detection\<lparr>face_id := Some 2\<rparr>])
          \<and> map_of (face_tracking self') 1 = None
          \<and> map_of (face_history self') 1 = Some seen_at_100)
   \<and> map_of (face_tracking (snd (main_frame config_py visit_on_cadence
         \<lparr>time_now = 205 / 2, detected = [front_b, side_a]\<rparr>))) (Some 1) = Some visit_at_100
   \<and> map_of (face_history (snd (main_frame config_py visit_on_cadence
         \<lparr>time_now = 205 / 2, detected = [front_b, side_a]\<rparr>))) (Some 1) = None
   \<and> map_of (face_tracking (snd (main_frame config_py visit_on_cadence
         \<lparr>time_now = 207 / 2, detected = [front_b, side_a]\<rparr>))) (Some 1) = None
   \<and> map_of (face_history (snd (main_frame config_py visit_on_cadence
         \<lparr>time_now = 207 / 2, detected = [front_b, side_a]\<rparr>))) (Some 1) = Some visit_at_100"
proof -
  have e: "(0::real) < 1 / 2" by simp
  have T: "STALE_FACE_TIMEOUT config_py = 3" by (simp add: config_py_def)
  have a: "distinct (map fst (face_tracking one_face_tracker))
           \<and> map_of (face_tracking one_face_tracker) 1 = Some seen_at_100
           \<and> last_seen seen_at_100 = 100"
    by (simp add: one_face_tracker_def seen_at_100_def)
  have below: "\<forall>j \<in> fst ` set (face_tracking one_face_tracker). j < next_face_id one_face_tracker"
    by (simp add: one_face_tracker_def)
  have h: "map_of (face_history one_face_tracker) 1 = None"
    by (simp add: one_face_tracker_def)
  have hs: "map_of (face_history visit_on_cadence) (Some 1) = None"
    by (simp add: visit_on_cadence_def)
  have out: "\<exists>self'. update config_py one_face_tracker [far_detection] now (1 / 2)
               = Inr (self', [far_detection\<lparr>face_id := Some 2\<rparr>])" for now
    by (simp add: update_def compute_distances_def greedy_assignment_def assign_ids_def
        one_face_tracker_def seen_at_100_def far_detection_def enumerate_eq_zip Let_def)
  have nref: "Some 1 \<notin> face_id ` set [far_detection\<lparr>face_id := Some 2\<rparr>]" by simp
  have fs: "fst (faces_step visit_on_cadence \<lparr>time_now = now, detected = [front_b, side_a]\<rparr>) = None
            \<and> map_of (face_tracking (snd (faces_step visit_on_cadence
                  \<lparr>time_now = now, detected = [front_b, side_a]\<rparr>))) (Some 1) = Some visit_at_100"
    for now
    by (simp add: faces_step_def process_face_skip [OF disjI1, OF side_a_turned]
        process_face_frontal [OF front_b_facing front_b_crop(1)] front_b_crop
        visit_on_cadence_def get_id_def cosine_def dot_def Let_def)
  have b: "distinct (map fst (face_tracking visit_on_cadence))
           \<and> map_of (face_tracking visit_on_cadence) (Some 1) = Some visit_at_100
           \<and> last_seen visit_at_100 = 100
           \<and> faces_step visit_on_cadence \<lparr>time_now = now, detected = [front_b, side_a]\<rparr>
               = (None, snd (faces_step visit_on_cadence \<lparr>time_now = now, detected = [front_b, side_a]\<rparr>))"
    for now
    using fs [of now] by (simp add: visit_on_cadence_def visit_at_100_def prod_eq_iff)
  note th = stale_eviction_boundary [OF e, where self = one_face_tracker and fid = 1
      and e = seen_at_100 and ?t0.0 = 100 and cfg = config_py and s = visit_on_cadence
      and k = "Some 1" and v = visit_at_100 and dets = "[far_detection]" and dt = "1 / 2"]
  note tr = th [THEN conjunct1, THEN mp, OF a]
  note up = tr [THEN conjunct2, THEN conjunct2, THEN conjunct2, THEN conjunct2, THEN mp, OF below]
  from up [THEN conjunct1] out [of "205 / 2"] nref h
  have u1: "\<exists>self'. update config_py one_face_tracker [far_detection] (205 / 2) (1 / 2)
                 = Inr (self', [far_detection\<lparr>face_id := Some 2\<rparr>])
          \<and> map_of (face_tracking self') 1 = Some seen_at_100
          \<and> map_of (face_history self') 1 = None"
    by (auto simp: T)
  from up [THEN conjunct2] out [of "207 / 2"] nref
  have u2: "\<exists>self'. update config_py one_face_tracker [far_detection] (207 / 2) (1 / 2)
                 = Inr (self', [far_detection\<lparr>face_id := Some 2\<rparr>])
          \<and> map_of (face_tracking self') 1 = None
          \<and> map_of (face_history self') 1 = Some seen_at_100"
    by (auto simp: T)
  note m1 = th [where fr = "\<lparr>time_now = 205 / 2, detected = [front_b, side_a]\<rparr>"
      and ?s2.0 = "snd (faces_step visit_on_cadence \<lparr>time_now = 205 / 2, detected = [front_b, side_a]\<rparr>)",
      THEN conjunct2, THEN conjunct1, THEN mp, OF b, THEN conjunct2, THEN mp,
      OF fs [THEN conjunct2]]
  note m2 = th [where fr = "\<lparr>time_now = 207 / 2, detected = [front_b, side_a]\<rparr>"
      and ?s2.0 = "snd (faces_step visit_on_cadence \<lparr>time_now = 207 / 2, detected = [front_b, side_a]\<rparr>)",
      THEN conjunct2, THEN conjunct1, THEN mp, OF b, THEN conjunct2, THEN mp,
      OF fs [THEN conjunct2]]
  from tr h have c: "map_of (face_tracking (cleanup_stale config_py one_face_tracker (205 / 2))) 1 = Some seen_at_100
   \<and> map_of (face_history (cleanup_stale config_py one_face_tracker (205 / 2))) 1 = None
   \<and> map_of (face_tracking (cleanup_stale config_py one_face_tracker (207 / 2))) 1 = None
   \<and> map_of (face_history (cleanup_stale config_py one_face_tracker (207 / 2))) 1 = Some seen_at_100"
    by (simp add: T)
  from m1 m2 hs have m: "map_of (face_tracking (snd (main_frame config_py visit_on_cadence
         \<lparr>time_now = 205 / 2, detected = [front_b, side_a]\<rparr>))) (Some 1) = Some visit_at_100
   \<and> map_of (face_history (snd (main_frame config_py visit_on_cadence
         \<lparr>time_now = 205 / 2, detected = [front_b, side_a]\<rparr>))) (Some 1) = None
   \<and> map_of (face_tracking (snd (main_frame config_py visit_on_cadence
         \<lparr>time_now = 207 / 2, detected = [front_b, side_a]\<rparr>))) (Some 1) = None
   \<and> map_of (face_history (snd (main_frame config_py visit_on_cadence
         \<lparr>time_now = 207 / 2, detected = [front_b, side_a]\<rparr>))) (Some 1) = Some visit_at_100"
    by (simp add: T)
  from c u1 u2 m show ?thesis by (intro conjI) simp_all
qed















lemmas two_faces_simps =
  main_frame_def main_init_def FaceMemory_init_def get_id_def cosine_def dot_def Let_def
  visit_seen_def new_visit_def stale_def config_py_def idle_frame_def front_a_crop front_b_crop
  process_face_frontal [OF front_a_facing front_a_crop(1)]
  process_face_frontal [OF front_b_facing front_b_crop(1)]

lemma two_faces_first_run:
  "main_frame config_py (main_init 100) \<lparr>time_now = 100, detected = [front_a, front_b]\<rparr>
     = (None, two_faces_first)"
  by (simp add: two_faces_simps two_faces_first_def)

lemma two_faces_second_run:
  "main_frame config_py two_faces_first \<lparr>time_now = 101, detected = [front_a, front_b]\<rparr>
     = (None, two_faces_second)"
  by (simp add: two_faces_simps two_faces_first_def two_faces_second_def)

lemma late_face_run:
  "fst (main_loop config_py (main_init 100) late_face_frames) = Some NameError"
  by (simp add: two_faces_simps late_face_frames_def)

text \<open>
  Claim C4, a defect of the code.  The loop body keeps the id that \<^verbatim>\<open>get_id\<close> returned in
  the one local variable \<^verbatim>\<open>fid\<close>, whatever the face.  Two faces of two identities are in
  two frames: on the first, on the cadence, the first face is resolved to id 1 and the
  second to id 2; on the second frame, off the cadence, both faces are credited to id 2,
  the id resolved last, and the entry of id 1 gets nothing.  And in a run whose first frame
  has no face and whose second has one, the second frame is off the cadence and reads
  \<^verbatim>\<open>fid\<close> unbound: the loop ends with a \<^verbatim>\<open>NameError\<close>.
\<close>

theorem fid_shared_by_all_faces:
  "main_loop config_py (main_init 100) two_faces_frames = (None, two_faces_second)
   \<and> map_of (face_tracking two_faces_second) (Some 1)
       = Some \<lparr>attention_time = 0, total_time = 0, last_seen = 100, start_time = 0, end_time = 0\<rparr>
   \<and> map_of (face_tracking two_faces_second) (Some 2)
       = Some \<lparr>attention_time = 2, total_time = 2, last_seen = 101, start_time = 0, end_time = 1\<rparr>
   \<and> fst (main_loop config_py (main_init 100) late_face_frames) = Some NameError"
proof (intro conjI)
  show "main_loop config_py (main_init 100) two_faces_frames = (None, two_faces_second)"
    by (simp add: two_faces_frames_def two_faces_first_run two_faces_second_run)
  show "map_of (face_tracking two_faces_second) (Some 1)
       = Some \<lparr>attention_time = 0, total_time = 0, last_seen = 100, start_time = 0, end_time = 0\<rparr>"
    by (simp add: two_faces_second_def)
  show "map_of (face_tracking two_faces_second) (Some 2)
       = Some \<lparr>attention_time = 2, total_time = 2, last_seen = 101, start_time = 0, end_time = 1\<rparr>"
    by (simp add: two_faces_second_def)
  show "fst (main_loop config_py (main_init 100) late_face_frames) = Some NameError"
    by (rule late_face_run)
qed

section \<open>What a referenced entry is credited\<close>







section \<open>Attention and total time\<close>









end
